theory Spec2Isabelle
  imports Main "HOL-Library.Word" "HOL-Library.Monad_Syntax"
begin

section \<open>The LRU cache of \<open>Chapter 3/lru.cpp\<close>\<close>

text \<open>
  The cache is a hash index (\<open>std::unordered_map\<close>) from keys to nodes, and a doubly
  linked list of the same nodes between two sentinels, most recently used first. The
  nodes live on the heap and are linked by pointers, so the model has an explicit store:
  a partial map from addresses to nodes. A \<open>shared_ptr\<close> or \<open>weak_ptr\<close> is an
  \<open>addr option\<close>, \<open>None\<close> being the null pointer.

  The result of every function that dereferences a pointer is an \<open>option\<close>:
  \<open>None\<close> stands for the dereference of a null (or unallocated) pointer, which the
  C++ leaves undefined. The theorems show that this never happens in a cache that was
  built by the constructor and used through its public member functions.

  Every public member function holds the mutex \<open>m\<close> from its first statement to its
  return, so each one is modelled as one atomic step on the state.
\<close>

subsection \<open>Data\<close>

type_synonym addr = nat

type_synonym u32 = "32 word"

text \<open>\<open>struct Node\<close>: \<open>value\<close> and \<open>next\<close> are keywords here, hence the suffix.\<close>

record ('k, 'v) Node =
  key :: 'k
  value_n :: 'v
  next_n :: "addr option"
  prev :: "addr option"

type_synonym ('k, 'v) store = "addr \<rightharpoonup> ('k, 'v) Node"

text \<open>
  \<open>class ThreadSafeLRU\<close>. The fields \<open>capacity\<close>, \<open>size\<close>, \<open>hits\<close> and
  \<open>misses\<close> are \<open>unsigned\<close>: 32 bits, arithmetic modulo \<open>2 ^ 32\<close>. The last two
  fields are not members of the class: \<open>heap\<close> is the store the nodes live in, and
  \<open>brk\<close> is the address the next \<open>make_shared\<close> returns (every address from
  \<open>brk\<close> on is unallocated). Nodes that lose their last owner stay in the store as
  garbage that no pointer of the cache refers to.
\<close>

record ('k, 'v) ThreadSafeLRU =
  capacity :: u32
  size_c :: u32
  map_c :: "'k \<rightharpoonup> addr"
  head :: addr
  tail :: addr
  hits :: u32
  misses :: u32
  heap :: "('k, 'v) store"
  brk :: addr

text \<open>The two exceptions the class throws.\<close>

datatype error = invalid_argument | out_of_range

subsection \<open>Pointers\<close>

text \<open>\<open>weak_ptr::lock\<close>: the null pointer when the weak pointer is empty or its node is gone.\<close>

definition lock :: "('k, 'v) store \<Rightarrow> addr option \<Rightarrow> addr option" where
  "lock h w = (case w of None \<Rightarrow> None | Some a \<Rightarrow> (if h a = None then None else Some a))"

text \<open>Writing a node back to its address.\<close>

definition store :: "addr \<Rightarrow> ('k, 'v) Node \<Rightarrow> ('k, 'v) ThreadSafeLRU \<Rightarrow> ('k, 'v) ThreadSafeLRU" where
  "store a n s = s\<lparr>heap := (heap s)(a \<mapsto> n)\<rparr>"

text \<open>\<open>std::make_shared<Node<K, V>>(...)\<close>: a new node at a fresh address.\<close>

definition make_shared :: "('k, 'v) Node \<Rightarrow> ('k, 'v) ThreadSafeLRU \<Rightarrow> addr \<times> ('k, 'v) ThreadSafeLRU" where
  "make_shared n s = (brk s, s\<lparr>heap := (heap s)(brk s \<mapsto> n), brk := brk s + 1\<rparr>)"

subsection \<open>The private member functions\<close>

text \<open>
  \<open>removeNode\<close> (lines 47 to 56). Each statement reads the store as the statements before
  it left it.
\<close>

definition removeNode :: "addr \<Rightarrow> ('k, 'v) ThreadSafeLRU \<Rightarrow> ('k, 'v) ThreadSafeLRU option" where
  "removeNode node s0 = do {
     n0 \<leftarrow> heap s0 node;
     s1 \<leftarrow> (case lock (heap s0) (prev n0) of
              None \<Rightarrow> Some s0
            | Some p \<Rightarrow> do {
                pn \<leftarrow> heap s0 p;
                Some (store p (pn\<lparr>next_n := next_n n0\<rparr>) s0)
              });
     n1 \<leftarrow> heap s1 node;
     s2 \<leftarrow> (case next_n n1 of
              None \<Rightarrow> Some s1
            | Some x \<Rightarrow> do {
                xn \<leftarrow> heap s1 x;
                Some (store x (xn\<lparr>prev := prev n1\<rparr>) s1)
              });
     n2 \<leftarrow> heap s2 node;
     let s3 = store node (n2\<lparr>next_n := None\<rparr>) s2;
     n3 \<leftarrow> heap s3 node;
     Some (store node (n3\<lparr>prev := None\<rparr>) s3)
   }"

text \<open>\<open>addToFront\<close> (lines 58 to 63).\<close>

definition addToFront :: "addr \<Rightarrow> ('k, 'v) ThreadSafeLRU \<Rightarrow> ('k, 'v) ThreadSafeLRU option" where
  "addToFront node s0 = do {
     h0 \<leftarrow> heap s0 (head s0);
     n0 \<leftarrow> heap s0 node;
     let s1 = store node (n0\<lparr>next_n := next_n h0\<rparr>) s0;
     n1 \<leftarrow> heap s1 node;
     let s2 = store node (n1\<lparr>prev := Some (head s1)\<rparr>) s1;
     h2 \<leftarrow> heap s2 (head s2);
     x \<leftarrow> next_n h2;
     xn \<leftarrow> heap s2 x;
     let s3 = store x (xn\<lparr>prev := Some node\<rparr>) s2;
     h3 \<leftarrow> heap s3 (head s3);
     Some (store (head s3) (h3\<lparr>next_n := Some node\<rparr>) s3)
   }"

text \<open>\<open>moveToFront\<close> (lines 65 to 68).\<close>

definition moveToFront :: "addr \<Rightarrow> ('k, 'v) ThreadSafeLRU \<Rightarrow> ('k, 'v) ThreadSafeLRU option" where
  "moveToFront node s = do { s1 \<leftarrow> removeNode node s; addToFront node s1 }"

text \<open>\<open>evictLRU\<close> (lines 70 to 79).\<close>

definition evictLRU :: "('k, 'v) ThreadSafeLRU \<Rightarrow> ('k, 'v) ThreadSafeLRU option" where
  "evictLRU s =
     (if size_c s = 0 then Some s
      else do {
        t \<leftarrow> heap s (tail s);
        (case lock (heap s) (prev t) of
           None \<Rightarrow> Some s
         | Some lru \<Rightarrow>
             if lru \<noteq> head s then do {
               s1 \<leftarrow> removeNode lru s;
               n \<leftarrow> heap s1 lru;
               let s2 = s1\<lparr>map_c := (map_c s1)(key n := None)\<rparr>;
               Some (s2\<lparr>size_c := size_c s2 - 1\<rparr>)
             }
             else Some s)
      })"

subsection \<open>The public member functions\<close>

text \<open>
  The constructor (lines 82 to 90). Its argument is optional and defaults to 10. The
  sentinels are built by \<open>Node()\<close>, which initialises only \<open>next\<close>: their key and
  value are whatever default initialisation leaves there, the constant \<open>default\<close> of
  the type class. An exception leaves no object behind.
\<close>

definition Node_sentinel :: "('k::default, 'v::default) Node" where
  "Node_sentinel = \<lparr>key = default, value_n = default, next_n = None, prev = None\<rparr>"

definition Node_entry :: "'k \<Rightarrow> 'v \<Rightarrow> ('k, 'v) Node" where
  "Node_entry k v = \<lparr>key = k, value_n = v, next_n = None, prev = None\<rparr>"

definition new_ThreadSafeLRU :: "u32 option \<Rightarrow> error + ('k::default, 'v::default) ThreadSafeLRU" where
  "new_ThreadSafeLRU arg =
     (let cap = (case arg of None \<Rightarrow> 10 | Some c \<Rightarrow> c) in
      if cap = 0 then Inl invalid_argument
      else
        let h = (0::addr); t = (1::addr) in
        Inr \<lparr>capacity = cap, size_c = 0, map_c = Map.empty, head = h, tail = t,
             hits = 0, misses = 0,
             heap = [h \<mapsto> Node_sentinel\<lparr>next_n := Some t\<rparr>,
                     t \<mapsto> Node_sentinel\<lparr>prev := Some h\<rparr>],
             brk = 2\<rparr>)"

text \<open>
  \<open>get\<close> (lines 96 to 108). On a miss the counter is incremented before the exception
  leaves the function, so the state changes although the call fails.
\<close>

definition get :: "'k \<Rightarrow> ('k, 'v) ThreadSafeLRU \<Rightarrow> ((error + 'v) \<times> ('k, 'v) ThreadSafeLRU) option" where
  "get k s =
     (case map_c s k of
        None \<Rightarrow> Some (Inl out_of_range, s\<lparr>misses := misses s + 1\<rparr>)
      | Some node \<Rightarrow> do {
          s1 \<leftarrow> moveToFront node s;
          let s2 = s1\<lparr>hits := hits s1 + 1\<rparr>;
          n \<leftarrow> heap s2 node;
          Some (Inr (value_n n), s2)
        })"

text \<open>\<open>contains\<close> (lines 110 to 113).\<close>

definition contains :: "'k \<Rightarrow> ('k, 'v) ThreadSafeLRU \<Rightarrow> bool \<times> ('k, 'v) ThreadSafeLRU" where
  "contains k s = (map_c s k \<noteq> None, s)"

text \<open>
  \<open>put\<close> (lines 115 to 133). The overload for rvalues (lines 135 to 155) differs only in
  moving its arguments instead of copying them.
\<close>

definition put :: "'k \<Rightarrow> 'v \<Rightarrow> ('k, 'v) ThreadSafeLRU \<Rightarrow> ('k, 'v) ThreadSafeLRU option" where
  "put k v s =
     (case map_c s k of
        Some node \<Rightarrow> do {
          n \<leftarrow> heap s node;
          moveToFront node (store node (n\<lparr>value_n := v\<rparr>) s)
        }
      | None \<Rightarrow> do {
          let (newNode, s1) = make_shared (Node_entry k v) s;
          let s2 = s1\<lparr>map_c := (map_c s1)(k \<mapsto> newNode)\<rparr>;
          s3 \<leftarrow> addToFront newNode s2;
          let s4 = s3\<lparr>size_c := size_c s3 + 1\<rparr>;
          if size_c s4 > capacity s4 then evictLRU s4 else Some s4
        })"

text \<open>\<open>remove\<close> (lines 157 to 169).\<close>

definition remove :: "'k \<Rightarrow> ('k, 'v) ThreadSafeLRU \<Rightarrow> (bool \<times> ('k, 'v) ThreadSafeLRU) option" where
  "remove k s =
     (case map_c s k of
        None \<Rightarrow> Some (False, s)
      | Some node \<Rightarrow> do {
          s1 \<leftarrow> removeNode node s;
          let s2 = s1\<lparr>map_c := (map_c s1)(k := None)\<rparr>;
          Some (True, s2\<lparr>size_c := size_c s2 - 1\<rparr>)
        })"

text \<open>
  The statistics and the two getters (lines 172 to 197). \<open>getHitRatio\<close> divides in
  double precision; the model returns the numerator and the denominator of that
  quotient, or \<open>None\<close> where the C++ returns \<open>0.0\<close> without dividing.
\<close>

definition getHitMissStats :: "('k, 'v) ThreadSafeLRU \<Rightarrow> (u32 \<times> u32) \<times> ('k, 'v) ThreadSafeLRU" where
  "getHitMissStats s = ((hits s, misses s), s)"

definition getHitRatio :: "('k, 'v) ThreadSafeLRU \<Rightarrow> (u32 \<times> u32) option \<times> ('k, 'v) ThreadSafeLRU" where
  "getHitRatio s =
     (let total = hits s + misses s in
      ((if total > 0 then Some (hits s, total) else None), s))"

definition resetStats :: "('k, 'v) ThreadSafeLRU \<Rightarrow> ('k, 'v) ThreadSafeLRU" where
  "resetStats s = s\<lparr>hits := 0, misses := 0\<rparr>"

definition getSize :: "('k, 'v) ThreadSafeLRU \<Rightarrow> u32 \<times> ('k, 'v) ThreadSafeLRU" where
  "getSize s = (size_c s, s)"

definition getCapacity :: "('k, 'v) ThreadSafeLRU \<Rightarrow> u32 \<times> ('k, 'v) ThreadSafeLRU" where
  "getCapacity s = (capacity s, s)"

subsection \<open>Sequences of calls\<close>

text \<open>
  A caller is a list of calls of public member functions. A call that throws is a
  completed call too: the caller catches the exception and goes on, as the workers of
  \<open>main\<close> do.
\<close>

datatype ('k, 'v) call =
    Get 'k
  | Contains 'k
  | Put 'k 'v
  | Remove 'k
  | GetHitMissStats
  | GetHitRatio
  | ResetStats
  | GetSize
  | GetCapacity

fun exec :: "('k, 'v) call \<Rightarrow> ('k, 'v) ThreadSafeLRU \<Rightarrow> ('k, 'v) ThreadSafeLRU option" where
  "exec (Get k) s = map_option snd (get k s)"
| "exec (Contains k) s = Some (snd (contains k s))"
| "exec (Put k v) s = put k v s"
| "exec (Remove k) s = map_option snd (remove k s)"
| "exec GetHitMissStats s = Some (snd (getHitMissStats s))"
| "exec GetHitRatio s = Some (snd (getHitRatio s))"
| "exec ResetStats s = Some (resetStats s)"
| "exec GetSize s = Some (snd (getSize s))"
| "exec GetCapacity s = Some (snd (getCapacity s))"

fun run :: "('k, 'v) call list \<Rightarrow> ('k, 'v) ThreadSafeLRU \<Rightarrow> ('k, 'v) ThreadSafeLRU option" where
  "run [] s = Some s"
| "run (c # cs) s = (case exec c s of None \<Rightarrow> None | Some s' \<Rightarrow> run cs s')"

subsection \<open>Observing the recency list\<close>

text \<open>
  Walking the list along \<open>next\<close>, from the node after \<open>head\<close> up to \<open>tail\<close>, and
  collecting the key and the value of each node passed. The walk has no result when it
  meets a null pointer, or never ends.
\<close>

partial_function (option) walk :: "('k, 'v) store \<Rightarrow> addr \<Rightarrow> addr \<Rightarrow> ('k \<times> 'v) list option" where
  "walk h t a =
     (if a = t then Some []
      else case h a of
        None \<Rightarrow> None
      | Some n \<Rightarrow>
          (case next_n n of
             None \<Rightarrow> None
           | Some b \<Rightarrow> Option.bind (walk h t b) (\<lambda>es. Some ((key n, value_n n) # es))))"

definition entries :: "('k, 'v) ThreadSafeLRU \<Rightarrow> ('k \<times> 'v) list option" where
  "entries s = do {
     h0 \<leftarrow> heap s (head s);
     a \<leftarrow> next_n h0;
     walk (heap s) (tail s) a
   }"

declare walk.simps [code]

text \<open>
  A caller's whole session: the constructor, then a list of calls. The result is the
  state the cache is left in; there is none when the constructor throws.
\<close>

definition start :: "u32 option \<Rightarrow> ('k::default, 'v::default) call list \<Rightarrow> ('k, 'v) ThreadSafeLRU option" where
  "start arg cs = (case new_ThreadSafeLRU arg of Inl e \<Rightarrow> None | Inr s0 \<Rightarrow> run cs s0)"

text \<open>
  Default initialisation for the two instantiations used in the examples below, the one
  of \<open>main\<close>: \<open>std::string\<close> keys and \<open>int\<close> values.
\<close>

instantiation list :: (type) default
begin
definition default_list :: "'a list" where "default_list = []"
instance ..
end

instantiation int :: default
begin
definition default_int :: int where "default_int = 0"
instance ..
end

subsection \<open>The representation invariant\<close>

text \<open>
  \<open>cell h a p q\<close>: address \<open>a\<close> holds a node whose \<open>prev\<close> is \<open>p\<close> and whose
  \<open>next\<close> is \<open>q\<close>. \<open>links h p a bs q\<close>: the nodes \<open>a # bs\<close> are chained in this
  order, in both directions, \<open>p\<close> before the first and \<open>q\<close> after the last.
\<close>

definition cell :: "('k, 'v) store \<Rightarrow> addr \<Rightarrow> addr option \<Rightarrow> addr option \<Rightarrow> bool" where
  "cell h a p q = (case h a of None \<Rightarrow> False | Some n \<Rightarrow> prev n = p \<and> next_n n = q)"

fun links :: "('k, 'v) store \<Rightarrow> addr option \<Rightarrow> addr \<Rightarrow> addr list \<Rightarrow> addr option \<Rightarrow> bool" where
  "links h p a [] q = cell h a p q"
| "links h p a (b # bs) q = (cell h a p (Some b) \<and> links h (Some a) b bs q)"

text \<open>The key and the value stored at an address.\<close>

definition kv :: "('k, 'v) store \<Rightarrow> addr \<Rightarrow> 'k \<times> 'v" where
  "kv h a = (key (the (h a)), value_n (the (h a)))"

text \<open>
  \<open>shape s xs\<close>: the list of the cache is \<open>head\<close>, the nodes \<open>xs\<close>, \<open>tail\<close>, all
  different. \<open>agree m f xs\<close>: the index \<open>m\<close> maps each key to the one node of \<open>xs\<close>
  that carries it, and to nothing else. \<open>counted sz cap n\<close>: the counter \<open>sz\<close> is
  \<open>n\<close> modulo \<open>2 ^ 32\<close>, and \<open>n\<close> is within the capacity unless the capacity is the
  largest \<open>unsigned\<close>.
\<close>

definition shape :: "('k, 'v) ThreadSafeLRU \<Rightarrow> addr list \<Rightarrow> bool" where
  "shape s xs \<longleftrightarrow>
     links (heap s) None (head s) (xs @ [tail s]) None \<and> distinct (head s # xs @ [tail s])"

definition agree :: "('k \<rightharpoonup> addr) \<Rightarrow> (addr \<Rightarrow> 'k \<times> 'v) \<Rightarrow> addr list \<Rightarrow> bool" where
  "agree m f xs \<longleftrightarrow> (\<forall>k a. m k = Some a \<longleftrightarrow> a \<in> set xs \<and> fst (f a) = k)"

definition counted :: "u32 \<Rightarrow> u32 \<Rightarrow> nat \<Rightarrow> bool" where
  "counted sz cap n \<longleftrightarrow> sz = of_nat n \<and> cap \<noteq> 0 \<and> (cap \<noteq> - 1 \<longrightarrow> n \<le> unat cap)"

definition cache_inv :: "('k, 'v) ThreadSafeLRU \<Rightarrow> addr list \<Rightarrow> bool" where
  "cache_inv s xs \<longleftrightarrow>
     shape s xs \<and> agree (map_c s) (kv (heap s)) xs \<and> counted (size_c s) (capacity s) (length xs) \<and>
     (\<forall>a. brk s \<le> a \<longrightarrow> heap s a = None)"

section \<open>Proofs\<close>

subsection \<open>Chains of nodes in the store\<close>

text \<open>
  A chain splits at any node into two chains; a write to a node outside a chain does not
  touch it; the \<open>next\<close> of the last node and the \<open>prev\<close> of the first can be
  redirected.
\<close>

lemma cell_iff: "cell h a p q \<longleftrightarrow> (\<exists>n. h a = Some n \<and> prev n = p \<and> next_n n = q)"
  by (simp add: cell_def split: option.splits)

lemma cell_upd_other: "a \<noteq> b \<Longrightarrow> cell (h(b \<mapsto> n)) a p q = cell h a p q"
  by (simp add: cell_def)

lemma cell_upd_same: "cell (h(a \<mapsto> n)) a p q \<longleftrightarrow> prev n = p \<and> next_n n = q"
  by (simp add: cell_def)

lemma links_append:
  "links h p a (bs @ c # cs) q \<longleftrightarrow> links h p a bs (Some c) \<and> links h (Some (last (a # bs))) c cs q"
  by (induction bs arbitrary: p a) auto

lemma links_frame: "b \<notin> set (a # bs) \<Longrightarrow> links (h(b \<mapsto> n)) p a bs q = links h p a bs q"
  by (induction bs arbitrary: p a) (auto simp: cell_upd_other)

lemma links_set_next:
  "links h p a bs q \<Longrightarrow> distinct (a # bs) \<Longrightarrow> h (last (a # bs)) = Some n \<Longrightarrow>
   links (h(last (a # bs) \<mapsto> n\<lparr>next_n := q'\<rparr>)) p a bs q'"
proof (induction bs arbitrary: p a)
  case Nil
  then show ?case by (auto simp: cell_iff)
next
  case (Cons b bs)
  let ?l = "last (b # bs)"
  have l: "last (a # b # bs) = ?l" by simp
  from Cons.prems have ne: "a \<noteq> ?l"
    by (metis distinct.simps(2) last_in_set list.distinct(1))
  from Cons.prems have 1: "cell h a p (Some b)" and 2: "links h (Some a) b bs q"
    and 3: "distinct (b # bs)"
    by simp_all
  from Cons.prems(3) have 4: "h ?l = Some n"
    unfolding l .
  have "links (h(?l \<mapsto> n\<lparr>next_n := q'\<rparr>)) (Some a) b bs q'"
    by (rule Cons.IH [OF 2 3 4])
  moreover have "cell (h(?l \<mapsto> n\<lparr>next_n := q'\<rparr>)) a p (Some b)"
    using 1 ne by (simp add: cell_upd_other del: last.simps)
  ultimately show ?case
    unfolding l links.simps by blast
qed

lemma links_set_prev:
  "links h p a bs q \<Longrightarrow> a \<notin> set bs \<Longrightarrow> h a = Some n \<Longrightarrow>
   links (h(a \<mapsto> n\<lparr>prev := p'\<rparr>)) p' a bs q"
  by (cases bs) (auto simp: cell_iff links_frame)

lemma links_allocated: "links h p a bs q \<Longrightarrow> b \<in> set (a # bs) \<Longrightarrow> h b \<noteq> None"
  by (induction bs arbitrary: p a) (auto simp: cell_iff)

subsection \<open>The list operations on a well-formed list\<close>

text \<open>
  On a node strictly between two others \<open>removeNode\<close> performs three writes, and
  \<open>addToFront\<close> three others; neither can meet a null pointer there. On a list of
  shape \<open>us @ a # vs\<close> the first leaves \<open>us @ vs\<close>, and the second puts its node
  before the list. Keys, values and the set of allocated addresses stay as they are.
  The walk of \<open>entries\<close> over a well-formed list returns its keys and values in order.
\<close>

lemma removeNode_interior:
  assumes "heap s a = Some n" "prev n = Some p" "next_n n = Some x"
    and "heap s p = Some pn" "heap s x = Some xn" "p \<noteq> a" "x \<noteq> a" "p \<noteq> x"
  shows "removeNode a s = Some (s\<lparr>heap := (heap s)(p \<mapsto> pn\<lparr>next_n := Some x\<rparr>,
            x \<mapsto> xn\<lparr>prev := Some p\<rparr>, a \<mapsto> n\<lparr>next_n := None, prev := None\<rparr>)\<rparr>)"
  using assms by (simp add: removeNode_def lock_def store_def)

lemma addToFront_explicit:
  assumes "heap s (head s) = Some hn" "next_n hn = Some x" "heap s x = Some xn" "heap s a = Some n"
    and "a \<noteq> head s" "a \<noteq> x" "x \<noteq> head s"
  shows "addToFront a s = Some (s\<lparr>heap := (heap s)(a \<mapsto> n\<lparr>next_n := Some x, prev := Some (head s)\<rparr>,
            x \<mapsto> xn\<lparr>prev := Some a\<rparr>, head s \<mapsto> hn\<lparr>next_n := Some a\<rparr>)\<rparr>)"
  using assms by (simp add: addToFront_def store_def)

lemma walk_links:
  "links h p a (bs @ [t]) q \<Longrightarrow> distinct (a # bs @ [t]) \<Longrightarrow>
   walk h t a = Some (map (kv h) (a # bs))"
proof (induction bs arbitrary: p a)
  case Nil
  then obtain n where n: "h a = Some n" "next_n n = Some t" and ne: "a \<noteq> t"
    by (auto simp: cell_iff)
  have "walk h t t = Some []" by (subst walk.simps) simp
  then show ?case using n ne by (subst walk.simps) (simp add: kv_def)
next
  case (Cons b bs)
  then obtain n where n: "h a = Some n" "next_n n = Some b" and ne: "a \<noteq> t"
    by (auto simp: cell_iff)
  from Cons.prems have "walk h t b = Some (map (kv h) (b # bs))"
    by (intro Cons.IH [of "Some a"]) auto
  then show ?case using n ne by (subst walk.simps) (simp add: kv_def)
qed

lemma entries_links:
  assumes "links (heap s) None (head s) (xs @ [tail s]) None"
    and "distinct (head s # xs @ [tail s])"
  shows "entries s = Some (map (kv (heap s)) xs)"
proof (cases xs)
  case Nil
  with assms obtain n where "heap s (head s) = Some n" "next_n n = Some (tail s)"
    by (auto simp: cell_iff)
  moreover have "walk (heap s) (tail s) (tail s) = Some []" by (subst walk.simps) simp
  ultimately show ?thesis using Nil by (simp add: entries_def)
next
  case (Cons x xs')
  with assms obtain n where n: "heap s (head s) = Some n" "next_n n = Some x"
    by (auto simp: cell_iff)
  from assms Cons have "walk (heap s) (tail s) x = Some (map (kv (heap s)) (x # xs'))"
    by (intro walk_links [of _ "Some (head s)" _ _ _ None]) auto
  then show ?thesis using n Cons by (simp add: entries_def)
qed

lemma links_frameI: "links h p a bs q \<Longrightarrow> b \<notin> set (a # bs) \<Longrightarrow> links (h(b \<mapsto> n)) p a bs q"
  using links_frame by blast

lemma links_unlink:
  assumes l: "links h None h0 (us @ a # x # ws) None"
    and d: "distinct (h0 # us @ a # x # ws)"
    and p: "p = last (h0 # us)"
    and hp: "h p = Some pn" and hx: "h x = Some xn" and ha: "h a = Some n"
  shows "links (h(p \<mapsto> pn\<lparr>next_n := Some x\<rparr>, x \<mapsto> xn\<lparr>prev := Some p\<rparr>,
                  a \<mapsto> n\<lparr>next_n := None, prev := None\<rparr>)) None h0 (us @ x # ws) None"
proof -
  from l have l1: "links h None h0 us (Some a)" and l2: "cell h a (Some p) (Some x)"
    and l3: "links h (Some a) x ws None"
    by (simp_all add: links_append p del: last.simps)
  from d have pin: "p \<in> set (h0 # us)" unfolding p by (intro last_in_set) simp
  from d pin have px: "p \<notin> set (x # ws)" and au: "a \<notin> set (h0 # us)"
    and xu: "x \<notin> set (h0 # us)" and ax: "a \<notin> set (x # ws)" and xw: "x \<notin> set ws"
    by auto
  from d have du: "distinct (h0 # us)" by simp
  let ?h1 = "h(p \<mapsto> pn\<lparr>next_n := Some x\<rparr>)"
  let ?h2 = "?h1(x \<mapsto> xn\<lparr>prev := Some p\<rparr>)"
  let ?h3 = "?h2(a \<mapsto> n\<lparr>next_n := None, prev := None\<rparr>)"
  have "links ?h1 None h0 us (Some x)"
    using links_set_next [OF l1 du, of pn "Some x"] hp unfolding p by blast
  then have "links ?h2 None h0 us (Some x)"
    by (rule links_frameI) (rule xu)
  then have A: "links ?h3 None h0 us (Some x)"
    by (rule links_frameI) (rule au)
  have x1: "?h1 x = Some xn"
    using px hx by auto
  have "links ?h1 (Some a) x ws None"
    using l3 by (rule links_frameI) (rule px)
  then have "links ?h2 (Some p) x ws None"
    using xw x1 by (rule links_set_prev)
  then have B: "links ?h3 (Some p) x ws None"
    by (rule links_frameI) (rule ax)
  show ?thesis
    unfolding links_append p [symmetric] using A B by blast
qed

lemma links_push:
  assumes l: "links h None h0 (x # ws) None"
    and a: "a \<notin> set (h0 # x # ws)" and h0: "h0 \<notin> set (x # ws)" and xw: "x \<notin> set ws"
    and hh: "h h0 = Some hn" and hx: "h x = Some xn"
  shows "links (h(a \<mapsto> n\<lparr>next_n := Some x, prev := Some h0\<rparr>, x \<mapsto> xn\<lparr>prev := Some a\<rparr>,
                  h0 \<mapsto> hn\<lparr>next_n := Some a\<rparr>)) None h0 (a # x # ws) None"
proof -
  let ?h1 = "h(a \<mapsto> n\<lparr>next_n := Some x, prev := Some h0\<rparr>)"
  let ?h2 = "?h1(x \<mapsto> xn\<lparr>prev := Some a\<rparr>)"
  let ?h3 = "?h2(h0 \<mapsto> hn\<lparr>next_n := Some a\<rparr>)"
  from l have l1: "cell h h0 None (Some x)" and l2: "links h (Some h0) x ws None"
    by simp_all
  from a have ax: "a \<notin> set (x # ws)" and ne: "a \<noteq> h0" "a \<noteq> x" by auto
  from h0 have ne2: "x \<noteq> h0" by auto
  from l1 hh have "prev hn = None" by (simp add: cell_iff)
  then have A: "cell ?h3 h0 None (Some a)"
    by (simp add: cell_upd_same)
  have B: "cell ?h3 a (Some h0) (Some x)"
    using ne by (simp add: cell_def)
  have x1: "?h1 x = Some xn" using hx ne by simp
  have "links ?h1 (Some h0) x ws None"
    using l2 by (rule links_frameI) (rule ax)
  then have "links ?h2 (Some a) x ws None"
    using xw x1 by (rule links_set_prev)
  then have C: "links ?h3 (Some a) x ws None"
    by (rule links_frameI) (rule h0)
  show ?thesis
    unfolding links.simps using A B C by blast
qed

lemma kv_upd_ptr:
  "h a = Some n \<Longrightarrow> key n' = key n \<Longrightarrow> value_n n' = value_n n \<Longrightarrow> kv (h(a \<mapsto> n')) = kv h"
  by (rule ext) (simp add: kv_def)

lemma removeNode_list:
  assumes sh: "shape s (us @ a # vs)"
  shows "\<exists>H. removeNode a s = Some (s\<lparr>heap := H\<rparr>) \<and> shape (s\<lparr>heap := H\<rparr>) (us @ vs) \<and>
           kv H = kv (heap s) \<and> dom H = dom (heap s) \<and> a \<in> dom H"
proof -
  let ?h = "heap s"
  define p where "p = last (head s # us)"
  obtain x ws where xw: "vs @ [tail s] = x # ws" by (cases vs) auto
  from sh have l: "links ?h None (head s) (us @ a # x # ws) None"
    and d: "distinct (head s # us @ a # x # ws)"
    using xw by (simp_all add: shape_def)
  from l have l1: "links ?h None (head s) us (Some a)" and l2: "cell ?h a (Some p) (Some x)"
    and l3: "links ?h (Some a) x ws None"
    by (simp_all add: links_append p_def del: last.simps)
  from l2 obtain n where n: "?h a = Some n" "prev n = Some p" "next_n n = Some x"
    by (auto simp: cell_iff)
  have pin: "p \<in> set (head s # us)" unfolding p_def by (intro last_in_set) simp
  with l1 obtain pn where pn: "?h p = Some pn"
    using links_allocated by blast
  from l3 obtain xn where xn: "?h x = Some xn"
    using links_allocated [of ?h "Some a" x ws None x] by auto
  from d pin have ne: "p \<noteq> a" "x \<noteq> a" "p \<noteq> x" by auto
  let ?H = "?h(p \<mapsto> pn\<lparr>next_n := Some x\<rparr>, x \<mapsto> xn\<lparr>prev := Some p\<rparr>,
                a \<mapsto> n\<lparr>next_n := None, prev := None\<rparr>)"
  have 1: "removeNode a s = Some (s\<lparr>heap := ?H\<rparr>)"
    using n pn xn ne by (rule removeNode_interior)
  have "links ?H None (head s) (us @ x # ws) None"
    using l d p_def pn xn n(1) by (rule links_unlink)
  moreover from d have "distinct (head s # us @ x # ws)" by auto
  ultimately have 2: "shape (s\<lparr>heap := ?H\<rparr>) (us @ vs)"
    using xw by (simp add: shape_def del: fun_upd_apply)
  have 3: "kv ?H = kv ?h"
    using n pn xn ne by (simp add: kv_upd_ptr)
  have 4: "dom ?H = dom ?h"
    using n pn xn ne by auto
  have 5: "a \<in> dom ?H" by simp
  show ?thesis using 1 2 3 4 5 by blast
qed

lemma addToFront_list:
  assumes sh: "shape s ys" and a: "a \<notin> set (head s # ys @ [tail s])" and n: "heap s a = Some n"
  shows "\<exists>H. addToFront a s = Some (s\<lparr>heap := H\<rparr>) \<and> shape (s\<lparr>heap := H\<rparr>) (a # ys) \<and>
           kv H = kv (heap s) \<and> dom H = dom (heap s)"
proof -
  let ?h = "heap s"
  obtain x ws where xw: "ys @ [tail s] = x # ws" by (cases ys) auto
  from sh have l: "links ?h None (head s) (x # ws) None"
    and d: "distinct (head s # x # ws)"
    using xw by (simp_all add: shape_def)
  from l obtain hn where hn: "?h (head s) = Some hn" "next_n hn = Some x"
    by (auto simp: cell_iff)
  from l obtain xn where xn: "?h x = Some xn"
    using links_allocated [of ?h None "head s" "x # ws" None x] by auto
  from a xw have a': "a \<notin> set (head s # x # ws)" by simp
  then have ne: "a \<noteq> head s" "a \<noteq> x" by auto
  from d have ne2: "x \<noteq> head s" "head s \<notin> set (x # ws)" "x \<notin> set ws" by auto
  let ?H = "?h(a \<mapsto> n\<lparr>next_n := Some x, prev := Some (head s)\<rparr>,
            x \<mapsto> xn\<lparr>prev := Some a\<rparr>, head s \<mapsto> hn\<lparr>next_n := Some a\<rparr>)"
  have 1: "addToFront a s = Some (s\<lparr>heap := ?H\<rparr>)"
    using hn xn n ne ne2(1) by (rule addToFront_explicit)
  have "links ?H None (head s) (a # x # ws) None"
    using l a' ne2(2,3) hn(1) xn by (rule links_push)
  moreover from d a' have "distinct (head s # a # x # ws)" by auto
  ultimately have 2: "shape (s\<lparr>heap := ?H\<rparr>) (a # ys)"
    using xw by (simp add: shape_def del: fun_upd_apply)
  have 3: "kv ?H = kv ?h"
    using n hn xn ne ne2 by (simp add: kv_upd_ptr)
  have 4: "dom ?H = dom ?h"
    using n hn xn by auto
  show ?thesis using 1 2 3 4 by blast
qed

lemma moveToFront_list:
  assumes sh: "shape s (us @ a # vs)"
  shows "\<exists>H. moveToFront a s = Some (s\<lparr>heap := H\<rparr>) \<and> shape (s\<lparr>heap := H\<rparr>) (a # us @ vs) \<and>
           kv H = kv (heap s) \<and> dom H = dom (heap s)"
proof -
  from removeNode_list [OF sh] obtain H1 where
    1: "removeNode a s = Some (s\<lparr>heap := H1\<rparr>)" and 2: "shape (s\<lparr>heap := H1\<rparr>) (us @ vs)"
    and 3: "kv H1 = kv (heap s)" and 4: "dom H1 = dom (heap s)" and 5: "a \<in> dom H1"
    by blast
  let ?s1 = "s\<lparr>heap := H1\<rparr>"
  from 5 obtain n where n: "heap ?s1 a = Some n" by auto
  from sh have "a \<notin> set (head ?s1 # (us @ vs) @ [tail ?s1])"
    by (auto simp: shape_def)
  from addToFront_list [OF 2 this n] obtain H2 where
    6: "addToFront a ?s1 = Some (?s1\<lparr>heap := H2\<rparr>)" and 7: "shape (?s1\<lparr>heap := H2\<rparr>) (a # us @ vs)"
    and 8: "kv H2 = kv (heap ?s1)" and 9: "dom H2 = dom (heap ?s1)"
    by blast
  have "moveToFront a s = Some (s\<lparr>heap := H2\<rparr>)"
    using 1 6 by (simp add: moveToFront_def)
  moreover have "shape (s\<lparr>heap := H2\<rparr>) (a # us @ vs)" using 7 by simp
  moreover have "kv H2 = kv (heap s)" using 8 3 by simp
  moreover have "dom H2 = dom (heap s)" using 9 4 by simp
  ultimately show ?thesis by blast
qed

lemma shape_tail_prev:
  assumes "shape s ys"
  shows "\<exists>t. heap s (tail s) = Some t \<and> prev t = Some (last (head s # ys))"
  using assms unfolding shape_def links_append by (auto simp: cell_iff simp del: last.simps)

lemma evictLRU_list:
  assumes sh: "shape s (us @ [a])" and sz: "size_c s \<noteq> 0"
  shows "\<exists>H. evictLRU s = Some (s\<lparr>heap := H, map_c := (map_c s)(fst (kv (heap s) a) := None),
               size_c := size_c s - 1\<rparr>) \<and>
             shape (s\<lparr>heap := H\<rparr>) us \<and> kv H = kv (heap s) \<and> dom H = dom (heap s)"
proof -
  from shape_tail_prev [OF sh] obtain t where t: "heap s (tail s) = Some t" "prev t = Some a"
    by auto
  from sh have al: "heap s a \<noteq> None"
    unfolding shape_def using links_allocated [of "heap s" None "head s" "(us @ [a]) @ [tail s]" None a]
    by auto
  from sh have ne: "a \<noteq> head s" by (auto simp: shape_def)
  from sh have sh': "shape s (us @ a # [])" by simp
  from removeNode_list [OF sh'] obtain H where
    1: "removeNode a s = Some (s\<lparr>heap := H\<rparr>)" and 2: "shape (s\<lparr>heap := H\<rparr>) us"
    and 3: "kv H = kv (heap s)" and 4: "dom H = dom (heap s)" and 5: "a \<in> dom H"
    unfolding append_Nil2 by blast
  from 5 obtain n where n: "H a = Some n" by auto
  then have "key n = fst (kv H a)" by (simp add: kv_def)
  then have k: "key n = fst (kv (heap s) a)" using 3 by simp
  have "evictLRU s = Some (s\<lparr>heap := H, map_c := (map_c s)(fst (kv (heap s) a) := None),
               size_c := size_c s - 1\<rparr>)"
    using sz t al ne 1 n k by (auto simp: evictLRU_def lock_def)
  then show ?thesis using 2 3 4 by blast
qed

subsection \<open>Arithmetic of the 32-bit counters\<close>

text \<open>
  As long as the number of entries is within a capacity below \<open>2 ^ 32 - 1\<close>, the
  counter \<open>size\<close> and its increment do not wrap, and the test \<open>size > capacity\<close>
  after the increment succeeds exactly when the cache was full.
\<close>

lemma unat_lt_max: "(c::u32) \<noteq> - 1 \<Longrightarrow> unat c < 4294967295"
proof -
  assume c: "c \<noteq> - 1"
  have "unat c < 2 ^ 32" using unsigned_less [of c] by simp
  moreover have "unat c \<noteq> 4294967295"
  proof
    assume "unat c = 4294967295"
    then have "of_nat (unat c) = (of_nat 4294967295 :: u32)" by simp
    then have "c = - 1" by simp
    with c show False by simp
  qed
  ultimately show ?thesis by simp
qed

lemma unat_of_nat_u32: "n < 4294967296 \<Longrightarrow> unat (of_nat n :: u32) = n"
  by (simp add: unat_of_nat)

lemma unat_of_nat_succ: "n \<le> unat (c::u32) \<Longrightarrow> c \<noteq> - 1 \<Longrightarrow> unat (of_nat n + 1 :: u32) = n + 1"
proof -
  assume a: "n \<le> unat c" "c \<noteq> - 1"
  then have "n + 1 < 4294967296" using unat_lt_max [of c] by simp
  then have "unat (of_nat (n + 1) :: u32) = n + 1" by (rule unat_of_nat_u32)
  then show ?thesis by (simp add: add.commute)
qed

lemma unat_of_nat_le: "n \<le> unat (c::u32) \<Longrightarrow> unat (of_nat n :: u32) = n"
proof -
  assume a: "n \<le> unat c"
  have "unat c < 2 ^ 32" using unsigned_less [of c] by simp
  with a have "n < 4294967296" by simp
  then show ?thesis by (rule unat_of_nat_u32)
qed

lemma no_gt_max: "\<not> (x::u32) > - 1"
  by (simp add: word_order.extremum_strict)

lemma room_after_increment:
  assumes "\<not> (of_nat n + 1 > (c::u32))" "c \<noteq> - 1 \<longrightarrow> n \<le> unat c"
  shows "c \<noteq> - 1 \<longrightarrow> Suc n \<le> unat c"
proof
  assume c: "c \<noteq> - 1"
  with assms have n: "n \<le> unat c" by simp
  from assms(1) have "unat (of_nat n + 1 :: u32) \<le> unat c"
    by (simp add: word_le_nat_alt not_less)
  then show "Suc n \<le> unat c" using unat_of_nat_succ [OF n c] by simp
qed

lemma full_before_increment:
  assumes "of_nat n + 1 > (c::u32)" "c \<noteq> - 1 \<longrightarrow> n \<le> unat c" "c \<noteq> 0"
  shows "n = unat c \<and> n \<noteq> 0 \<and> c \<noteq> - 1 \<and> of_nat n + 1 \<noteq> (0::u32)"
proof -
  from assms(1) have c: "c \<noteq> - 1" using no_gt_max by auto
  with assms have n: "n \<le> unat c" by simp
  from assms(1) have "unat c < unat (of_nat n + 1 :: u32)"
    by (simp add: word_less_nat_alt)
  then have "unat c < n + 1" using unat_of_nat_succ [OF n c] by simp
  with n have e: "n = unat c" by simp
  from assms(3) have "unat c \<noteq> 0" by (simp add: unat_eq_0)
  moreover from assms(1) have "of_nat n + 1 \<noteq> (0::u32)" by auto
  ultimately show ?thesis using e c by simp
qed

subsection \<open>The public member functions keep the invariant\<close>

text \<open>
  Each of \<open>get\<close>, \<open>put\<close> and \<open>remove\<close> returns (no null pointer is dereferenced),
  and the state it returns satisfies the invariant for a list of nodes given in terms
  of the old one. Hence every state reached from the constructor satisfies it.
\<close>

lemma shape_allocated: "shape s xs \<Longrightarrow> a \<in> set (head s # xs @ [tail s]) \<Longrightarrow> heap s a \<noteq> None"
  unfolding shape_def using links_allocated by blast

lemma agree_inj: "agree m f xs \<Longrightarrow> a \<in> set xs \<Longrightarrow> b \<in> set xs \<Longrightarrow> fst (f a) = fst (f b) \<Longrightarrow> a = b"
  unfolding agree_def by (metis option.inject)

lemma agree_move: "agree m f xs \<Longrightarrow> set ys = set xs \<Longrightarrow> agree m f ys"
  by (simp add: agree_def)

lemma agree_remove:
  assumes "agree m f (us @ a # vs)" "distinct (us @ a # vs)"
  shows "agree (m(fst (f a) := None)) f (us @ vs)"
proof -
  have *: "b \<in> set (us @ vs) \<longleftrightarrow> b \<in> set (us @ a # vs) \<and> b \<noteq> a" for b
    using assms(2) by auto
  have "fst (f b) = fst (f a) \<longleftrightarrow> b = a" if "b \<in> set (us @ a # vs)" for b
    using agree_inj [OF assms(1) that, of a] by auto
  then show ?thesis
    using assms(1) unfolding agree_def * by (auto simp del: set_append)
qed

lemma agree_insert:
  assumes "agree m f xs" "m k = None" "a \<notin> set xs"
  shows "agree (m(k \<mapsto> a)) (f(a := (k, v))) (a # xs)"
proof -
  have "fst (f b) \<noteq> k" if "b \<in> set xs" for b
    using assms(1,2) that unfolding agree_def by (metis option.distinct(1))
  then show ?thesis
    using assms unfolding agree_def by auto
qed

lemma agree_value:
  assumes "agree m f xs" "fst (f a) = k"
  shows "agree m (f(a := (k, v))) xs"
  using assms unfolding agree_def by auto

lemma get_miss:
  "map_c s k = None \<Longrightarrow> get k s = Some (Inl out_of_range, s\<lparr>misses := misses s + 1\<rparr>)"
  by (simp add: get_def)

lemma cache_inv_stats [simp]:
  "cache_inv (s\<lparr>misses := x\<rparr>) xs = cache_inv s xs"
  "cache_inv (s\<lparr>hits := y\<rparr>) xs = cache_inv s xs"
  by (simp_all add: cache_inv_def shape_def)

lemma get_hit:
  assumes inv: "cache_inv s (us @ a # vs)" and m: "map_c s k = Some a"
  shows "\<exists>s'. get k s = Some (Inr (snd (kv (heap s) a)), s') \<and> cache_inv s' (a # us @ vs) \<and>
           kv (heap s') = kv (heap s) \<and> hits s' = hits s + 1 \<and> misses s' = misses s \<and>
           map_c s' = map_c s \<and> size_c s' = size_c s \<and> capacity s' = capacity s"
proof -
  from inv have sh: "shape s (us @ a # vs)" by (simp add: cache_inv_def)
  from moveToFront_list [OF sh] obtain H where
    1: "moveToFront a s = Some (s\<lparr>heap := H\<rparr>)" and 2: "shape (s\<lparr>heap := H\<rparr>) (a # us @ vs)"
    and 3: "kv H = kv (heap s)" and 4: "dom H = dom (heap s)"
    by blast
  from shape_allocated [OF sh, of a] 4 obtain n where n: "H a = Some n" by auto
  then have v: "value_n n = snd (kv (heap s) a)" using 3 [symmetric] by (simp add: kv_def)
  let ?s' = "s\<lparr>heap := H, hits := hits s + 1\<rparr>"
  have g: "get k s = Some (Inr (snd (kv (heap s) a)), ?s')"
    using m 1 n v by (simp add: get_def)
  have "shape ?s' (a # us @ vs)" using 2 by (simp add: shape_def)
  moreover have "agree (map_c ?s') (kv (heap ?s')) (a # us @ vs)"
    using inv 3 by (auto simp: cache_inv_def intro: agree_move)
  moreover have "counted (size_c ?s') (capacity ?s') (length (a # us @ vs))"
    using inv by (simp add: cache_inv_def)
  moreover have "\<forall>b. brk ?s' \<le> b \<longrightarrow> heap ?s' b = None"
    using inv 4 by (auto simp: cache_inv_def domIff)
  ultimately have "cache_inv ?s' (a # us @ vs)" unfolding cache_inv_def by blast
  then show ?thesis using g 3 by (intro exI [of _ ?s']) simp
qed

lemma cell_upd_content:
  "h a = Some n \<Longrightarrow> prev n' = prev n \<Longrightarrow> next_n n' = next_n n \<Longrightarrow>
   cell (h(a \<mapsto> n')) b p q = cell h b p q"
  by (simp add: cell_def)

lemma links_upd_content:
  "h a = Some n \<Longrightarrow> prev n' = prev n \<Longrightarrow> next_n n' = next_n n \<Longrightarrow>
   links (h(a \<mapsto> n')) p b bs q = links h p b bs q"
  by (induction bs arbitrary: p b) (simp_all add: cell_upd_content del: fun_upd_apply)

lemma put_existing:
  assumes inv: "cache_inv s (us @ a # vs)" and m: "map_c s k = Some a"
  shows "\<exists>s'. put k v s = Some s' \<and> cache_inv s' (a # us @ vs) \<and>
           kv (heap s') = (kv (heap s))(a := (k, v)) \<and> hits s' = hits s \<and> misses s' = misses s \<and>
           map_c s' = map_c s \<and> size_c s' = size_c s \<and> capacity s' = capacity s"
proof -
  from inv have sh: "shape s (us @ a # vs)" and ag: "agree (map_c s) (kv (heap s)) (us @ a # vs)"
    by (simp_all add: cache_inv_def)
  from shape_allocated [OF sh, of a] obtain n where n: "heap s a = Some n" by auto
  from ag m have "fst (kv (heap s) a) = k" by (simp add: agree_def)
  then have kn: "key n = k" using n by (simp add: kv_def)
  let ?s1 = "store a (n\<lparr>value_n := v\<rparr>) s"
  have kv1: "kv (heap ?s1) = (kv (heap s))(a := (k, v))"
    using n kn by (auto simp: store_def kv_def)
  have sh1: "shape ?s1 (us @ a # vs)"
    using sh n by (simp add: shape_def store_def links_upd_content del: fun_upd_apply)
  from moveToFront_list [OF sh1] obtain H where
    1: "moveToFront a ?s1 = Some (?s1\<lparr>heap := H\<rparr>)" and 2: "shape (?s1\<lparr>heap := H\<rparr>) (a # us @ vs)"
    and 3: "kv H = kv (heap ?s1)" and 4: "dom H = dom (heap ?s1)"
    by blast
  let ?s' = "s\<lparr>heap := H\<rparr>"
  have e: "?s1\<lparr>heap := H\<rparr> = ?s'" by (simp add: store_def)
  have p: "put k v s = Some ?s'"
    using m n 1 e by (simp add: put_def)
  have d: "dom H = dom (heap s)" using 4 n by (auto simp: store_def)
  have "shape ?s' (a # us @ vs)" using 2 e by simp
  moreover have "agree (map_c ?s') (kv (heap ?s')) (a # us @ vs)"
    using agree_value [OF ag \<open>fst (kv (heap s) a) = k\<close>, of v] 3 kv1
    by (auto intro: agree_move)
  moreover have "counted (size_c ?s') (capacity ?s') (length (a # us @ vs))"
    using inv by (simp add: cache_inv_def)
  moreover have "\<forall>b. brk ?s' \<le> b \<longrightarrow> heap ?s' b = None"
    using inv d by (auto simp: cache_inv_def domIff)
  ultimately have "cache_inv ?s' (a # us @ vs)" unfolding cache_inv_def by blast
  then show ?thesis using p 3 kv1 by (intro exI [of _ ?s']) simp
qed

lemma remove_miss: "map_c s k = None \<Longrightarrow> remove k s = Some (False, s)"
  by (simp add: remove_def)

lemma counted_pred: "counted sz cap (Suc n) \<Longrightarrow> counted (sz - 1) cap n"
  by (auto simp: counted_def)

lemma remove_hit:
  assumes inv: "cache_inv s (us @ a # vs)" and m: "map_c s k = Some a"
  shows "\<exists>s'. remove k s = Some (True, s') \<and> cache_inv s' (us @ vs) \<and>
           kv (heap s') = kv (heap s) \<and> hits s' = hits s \<and> misses s' = misses s \<and>
           map_c s' = (map_c s)(k := None) \<and> size_c s' = size_c s - 1 \<and> capacity s' = capacity s"
proof -
  from inv have sh: "shape s (us @ a # vs)" and ag: "agree (map_c s) (kv (heap s)) (us @ a # vs)"
    by (simp_all add: cache_inv_def)
  from ag m have k: "fst (kv (heap s) a) = k" by (simp add: agree_def)
  from sh have dist: "distinct (us @ a # vs)" by (simp add: shape_def)
  from removeNode_list [OF sh] obtain H where
    1: "removeNode a s = Some (s\<lparr>heap := H\<rparr>)" and 2: "shape (s\<lparr>heap := H\<rparr>) (us @ vs)"
    and 3: "kv H = kv (heap s)" and 4: "dom H = dom (heap s)"
    by blast
  let ?s' = "s\<lparr>heap := H, map_c := (map_c s)(k := None), size_c := size_c s - 1\<rparr>"
  have r: "remove k s = Some (True, ?s')"
    using m 1 by (simp add: remove_def)
  have "shape ?s' (us @ vs)" using 2 by (simp add: shape_def)
  moreover have "agree (map_c ?s') (kv (heap ?s')) (us @ vs)"
    using agree_remove [OF ag dist] 3 k by simp
  moreover have "counted (size_c ?s') (capacity ?s') (length (us @ vs))"
    using inv by (simp add: cache_inv_def counted_pred)
  moreover have "\<forall>b. brk ?s' \<le> b \<longrightarrow> heap ?s' b = None"
    using inv 4 by (auto simp: cache_inv_def domIff)
  ultimately have "cache_inv ?s' (us @ vs)" unfolding cache_inv_def by blast
  then show ?thesis using r 3 by (intro exI [of _ ?s']) simp
qed

lemma put_new:
  assumes inv: "cache_inv s xs" and m: "map_c s k = None"
  shows "\<exists>s'. put k v s = Some s' \<and>
           kv (heap s') = (kv (heap s))(brk s := (k, v)) \<and> hits s' = hits s \<and>
           misses s' = misses s \<and> capacity s' = capacity s \<and>
           (if size_c s + 1 > capacity s
            then xs \<noteq> [] \<and> cache_inv s' (brk s # butlast xs) \<and>
                 map_c s' = (map_c s)(k \<mapsto> brk s, fst (kv (heap s) (last xs)) := None) \<and>
                 size_c s' = size_c s
            else cache_inv s' (brk s # xs) \<and> map_c s' = (map_c s)(k \<mapsto> brk s) \<and>
                 size_c s' = size_c s + 1)"
proof -
  define a where "a = brk s"
  from inv have sh: "shape s xs" and ag: "agree (map_c s) (kv (heap s)) xs"
    and cn: "counted (size_c s) (capacity s) (length xs)"
    and fr: "\<forall>b. brk s \<le> b \<longrightarrow> heap s b = None"
    by (simp_all add: cache_inv_def)
  from fr have fa: "heap s a = None" by (simp add: a_def)
  with shape_allocated [OF sh, of a] have an: "a \<notin> set (head s # xs @ [tail s])" by blast
  then have axs: "a \<notin> set xs" by simp
  let ?s2 = "s\<lparr>heap := (heap s)(a \<mapsto> Node_entry k v), brk := a + 1, map_c := (map_c s)(k \<mapsto> a)\<rparr>"
  have sh2: "shape ?s2 xs"
    using sh an unfolding shape_def by (simp add: links_frame del: fun_upd_apply)
  have an2: "a \<notin> set (head ?s2 # xs @ [tail ?s2])" using an by simp
  have n2: "heap ?s2 a = Some (Node_entry k v)" by simp
  from addToFront_list [OF sh2 an2 n2] obtain H where
    1: "addToFront a ?s2 = Some (?s2\<lparr>heap := H\<rparr>)" and 2: "shape (?s2\<lparr>heap := H\<rparr>) (a # xs)"
    and 3: "kv H = kv (heap ?s2)" and 4: "dom H = dom (heap ?s2)"
    by blast
  have kv2: "kv (heap ?s2) = (kv (heap s))(a := (k, v))"
    by (auto simp: kv_def Node_entry_def)
  let ?s4 = "?s2\<lparr>heap := H, size_c := size_c s + 1\<rparr>"
  have p: "put k v s = (if size_c s + 1 > capacity s then evictLRU ?s4 else Some ?s4)"
    using m 1 by (cases "size_c s + 1 > capacity s"; simp add: put_def make_shared_def a_def)
  have sh4: "shape ?s4 (a # xs)" using 2 by (simp add: shape_def)
  have ag4: "agree (map_c ?s4) (kv (heap ?s4)) (a # xs)"
    using agree_insert [OF ag m axs, of v] 3 kv2 by simp
  have fr4: "\<forall>b. brk ?s4 \<le> b \<longrightarrow> heap ?s4 b = None"
  proof (intro allI impI)
    fix b assume "brk ?s4 \<le> b"
    then have b: "brk s \<le> b" "b \<noteq> a" by (simp_all add: a_def)
    with fr have "b \<notin> dom (heap ?s2)" by (simp add: domIff)
    then have "b \<notin> dom H" using 4 by simp
    then show "heap ?s4 b = None" by (simp add: domIff)
  qed
  have sz: "size_c s = of_nat (length xs)" using cn by (simp add: counted_def)
  show ?thesis
  proof (cases "size_c s + 1 > capacity s")
    case False
    have "counted (size_c ?s4) (capacity ?s4) (length (a # xs))"
      using cn room_after_increment [of "capacity s" "length xs"] False
      by (simp add: counted_def)
    with sh4 ag4 fr4 have "cache_inv ?s4 (a # xs)" unfolding cache_inv_def by blast
    then show ?thesis using False p 3 kv2 by (intro exI [of _ ?s4]) (simp add: a_def)
  next
    case True
    from True have t: "capacity s < of_nat (length xs) + 1" unfolding sz .
    from cn have b: "capacity s \<noteq> - 1 \<longrightarrow> length xs \<le> unat (capacity s)"
      and c0: "capacity s \<noteq> 0"
      unfolding counted_def by blast+
    from full_before_increment [OF t b c0]
    have f: "length xs \<noteq> 0" "size_c s + 1 \<noteq> 0"
      unfolding sz by blast+
    then have ne: "xs \<noteq> []" by simp
    define l where "l = last xs"
    have xs: "xs = butlast xs @ [l]" using ne by (simp add: l_def)
    have sh4': "shape ?s4 ((a # butlast xs) @ [l])" using sh4 xs by simp
    have nz: "size_c ?s4 \<noteq> 0" using f by simp
    from evictLRU_list [OF sh4' nz] obtain H' where
      5: "evictLRU ?s4 = Some (?s4\<lparr>heap := H', map_c := (map_c ?s4)(fst (kv (heap ?s4) l) := None),
               size_c := size_c ?s4 - 1\<rparr>)"
      and 6: "shape (?s4\<lparr>heap := H'\<rparr>) (a # butlast xs)"
      and 7: "kv H' = kv (heap ?s4)" and 8: "dom H' = dom (heap ?s4)"
      by blast
    have la: "l \<noteq> a" using axs ne by (auto simp: l_def)
    then have kl: "fst (kv (heap ?s4) l) = fst (kv (heap s) l)" using 3 kv2 by simp
    let ?s' = "?s4\<lparr>heap := H', map_c := (map_c s)(k \<mapsto> a, fst (kv (heap s) l) := None),
                 size_c := size_c s\<rparr>"
    have e: "?s4\<lparr>heap := H', map_c := (map_c ?s4)(fst (kv (heap ?s4) l) := None),
               size_c := size_c ?s4 - 1\<rparr> = ?s'"
      unfolding kl by simp
    have p': "put k v s = Some ?s'" using p True 5 e by simp
    have "shape ?s' (a # butlast xs)" using 6 by (simp add: shape_def)
    moreover have "agree (map_c ?s') (kv (heap ?s')) (a # butlast xs)"
    proof -
      have "agree (map_c ?s4) (kv (heap ?s4)) ((a # butlast xs) @ l # [])"
        using ag4 xs by simp
      moreover have "distinct ((a # butlast xs) @ l # [])"
        using sh4' by (simp add: shape_def)
      ultimately have "agree ((map_c ?s4)(fst (kv (heap ?s4) l) := None)) (kv (heap ?s4)) ((a # butlast xs) @ [])"
        by (rule agree_remove)
      then show ?thesis unfolding kl using 7 by simp
    qed
    moreover have "counted (size_c ?s') (capacity ?s') (length (a # butlast xs))"
      using cn ne by (simp add: counted_def)
    moreover have "\<forall>b. brk ?s' \<le> b \<longrightarrow> heap ?s' b = None"
      using fr4 8 by (auto simp: domIff)
    ultimately have "cache_inv ?s' (a # butlast xs)" unfolding cache_inv_def by blast
    then show ?thesis using True p' ne 7 3 kv2 by (intro exI [of _ ?s']) (simp add: a_def l_def)
  qed
qed

lemma init_inv:
  assumes "new_ThreadSafeLRU arg = Inr s0"
  shows "cache_inv s0 []"
proof -
  define c where "c = (case arg of None \<Rightarrow> 10 | Some c \<Rightarrow> (c::u32))"
  from assms have c: "c \<noteq> 0"
    and s0: "s0 = \<lparr>capacity = c, size_c = 0, map_c = Map.empty, head = 0, tail = 1,
             hits = 0, misses = 0,
             heap = [0 \<mapsto> Node_sentinel\<lparr>next_n := Some 1\<rparr>,
                     1 \<mapsto> Node_sentinel\<lparr>prev := Some 0\<rparr>],
             brk = 2\<rparr>"
    by (auto simp: new_ThreadSafeLRU_def c_def Let_def split: if_splits)
  show ?thesis
    unfolding s0 using c
    by (simp add: cache_inv_def shape_def cell_def Node_sentinel_def agree_def counted_def)
qed

lemma agree_mem: "agree m f xs \<Longrightarrow> m k = Some a \<Longrightarrow> a \<in> set xs"
  unfolding agree_def by blast

lemma inv_mem: "cache_inv s xs \<Longrightarrow> map_c s k = Some a \<Longrightarrow> \<exists>us vs. xs = us @ a # vs"
proof -
  assume inv: "cache_inv s xs" and m: "map_c s k = Some a"
  from inv have "agree (map_c s) (kv (heap s)) xs" by (simp add: cache_inv_def)
  from agree_mem [OF this m] show ?thesis by (rule split_list)
qed

lemma exec_inv:
  assumes inv: "cache_inv s xs"
  shows "\<exists>s' xs'. exec c s = Some s' \<and> cache_inv s' xs' \<and> capacity s' = capacity s"
proof (cases c)
  case (Get k)
  show ?thesis
  proof (cases "map_c s k")
    case None
    have "exec c s = Some (s\<lparr>misses := misses s + 1\<rparr>)"
      unfolding Get using get_miss [OF None] by simp
    moreover have "cache_inv (s\<lparr>misses := misses s + 1\<rparr>) xs" using inv by simp
    ultimately show ?thesis by fastforce
  next
    case (Some a)
    from inv_mem [OF inv Some] obtain us vs where xs: "xs = us @ a # vs" by blast
    from get_hit [OF inv [unfolded xs] Some] obtain s' where
      "get k s = Some (Inr (snd (kv (heap s) a)), s')" "cache_inv s' (a # us @ vs)"
      "capacity s' = capacity s"
      by blast
    then show ?thesis unfolding Get by (intro exI [of _ s'] exI [of _ "a # us @ vs"]) simp
  qed
next
  case (Contains k)
  then show ?thesis using inv by (intro exI [of _ s] exI [of _ xs]) (simp add: contains_def)
next
  case (Put k v)
  show ?thesis
  proof (cases "map_c s k")
    case None
    from put_new [OF inv None, of v] obtain s' where
      s': "put k v s = Some s'" "capacity s' = capacity s"
      and d: "if size_c s + 1 > capacity s then cache_inv s' (brk s # butlast xs)
          else cache_inv s' (brk s # xs)"
      by (cases "size_c s + 1 > capacity s") auto
    from d obtain xs' where "cache_inv s' xs'" by (cases "size_c s + 1 > capacity s") auto
    with s' show ?thesis unfolding Put by (intro exI [of _ s'] exI [of _ xs']) simp
  next
    case (Some a)
    from inv_mem [OF inv Some] obtain us vs where xs: "xs = us @ a # vs" by blast
    from put_existing [OF inv [unfolded xs] Some, of v] obtain s' where
      "put k v s = Some s'" "cache_inv s' (a # us @ vs)" "capacity s' = capacity s"
      by blast
    then show ?thesis unfolding Put by (intro exI [of _ s'] exI [of _ "a # us @ vs"]) simp
  qed
next
  case (Remove k)
  show ?thesis
  proof (cases "map_c s k")
    case None
    have "exec c s = Some s"
      unfolding Remove using remove_miss [OF None] by simp
    then show ?thesis using inv by blast
  next
    case (Some a)
    from inv_mem [OF inv Some] obtain us vs where xs: "xs = us @ a # vs" by blast
    from remove_hit [OF inv [unfolded xs] Some] obtain s' where
      "remove k s = Some (True, s')" "cache_inv s' (us @ vs)" "capacity s' = capacity s"
      by blast
    then show ?thesis unfolding Remove by (intro exI [of _ s'] exI [of _ "us @ vs"]) simp
  qed
next
  case GetHitMissStats
  then show ?thesis using inv by (intro exI [of _ s] exI [of _ xs]) (simp add: getHitMissStats_def)
next
  case GetHitRatio
  then show ?thesis using inv by (intro exI [of _ s] exI [of _ xs]) (simp add: getHitRatio_def Let_def)
next
  case ResetStats
  then show ?thesis using inv
    by (intro exI [of _ "resetStats s"] exI [of _ xs]) (simp add: resetStats_def)
next
  case GetSize
  then show ?thesis using inv by (intro exI [of _ s] exI [of _ xs]) (simp add: getSize_def)
next
  case GetCapacity
  then show ?thesis using inv by (intro exI [of _ s] exI [of _ xs]) (simp add: getCapacity_def)
qed

lemma run_inv:
  "cache_inv s xs \<Longrightarrow> \<exists>s' xs'. run cs s = Some s' \<and> cache_inv s' xs' \<and> capacity s' = capacity s"
proof (induction cs arbitrary: s xs)
  case Nil
  then show ?case by auto
next
  case (Cons c cs)
  from exec_inv [OF Cons.prems, of c] obtain s1 xs1 where
    1: "exec c s = Some s1" "cache_inv s1 xs1" "capacity s1 = capacity s"
    by blast
  from Cons.IH [OF 1(2)] obtain s' xs' where
    "run cs s1 = Some s'" "cache_inv s' xs'" "capacity s' = capacity s1"
    by blast
  then show ?case using 1 by auto
qed

lemma start_inv:
  assumes "start arg cs = Some s"
  shows "\<exists>xs. cache_inv s xs"
proof -
  from assms obtain s0 where s0: "new_ThreadSafeLRU arg = Inr s0" "run cs s0 = Some s"
    by (auto simp: start_def split: sum.splits)
  from run_inv [OF init_inv [OF s0(1)], of cs] s0(2) show ?thesis by auto
qed

lemma run_capacity:
  assumes "new_ThreadSafeLRU arg = Inr s0"
  shows "\<exists>s. run cs s0 = Some s \<and> capacity s = capacity s0"
  using run_inv [OF init_inv [OF assms], of cs] by auto

subsection \<open>What a caller can observe of a state that satisfies the invariant\<close>

lemma inv_entries: "cache_inv s xs \<Longrightarrow> entries s = Some (map (kv (heap s)) xs)"
  unfolding cache_inv_def shape_def using entries_links by blast

lemma inv_dom: "cache_inv s xs \<Longrightarrow> dom (map_c s) = fst ` set (map (kv (heap s)) xs)"
proof -
  assume "cache_inv s xs"
  then have ag: "agree (map_c s) (kv (heap s)) xs" by (simp add: cache_inv_def)
  show ?thesis
  proof (rule set_eqI)
    fix k
    show "k \<in> dom (map_c s) \<longleftrightarrow> k \<in> fst ` set (map (kv (heap s)) xs)"
      using ag unfolding agree_def by (auto simp: image_iff)
  qed
qed

lemma inv_distinct_keys: "cache_inv s xs \<Longrightarrow> distinct (map fst (map (kv (heap s)) xs))"
proof -
  assume inv: "cache_inv s xs"
  then have ag: "agree (map_c s) (kv (heap s)) xs" and d: "distinct xs"
    by (simp_all add: cache_inv_def shape_def)
  have "inj_on (\<lambda>a. fst (kv (heap s) a)) (set xs)"
    by (rule inj_onI) (rule agree_inj [OF ag])
  with d show ?thesis by (simp add: distinct_map comp_def)
qed

lemma inv_card: "cache_inv s xs \<Longrightarrow> card (dom (map_c s)) = length xs"
proof -
  assume inv: "cache_inv s xs"
  have "card (dom (map_c s)) = card (set (map fst (map (kv (heap s)) xs)))"
    using inv_dom [OF inv] by (simp add: image_image)
  also have "\<dots> = length (map fst (map (kv (heap s)) xs))"
    using inv_distinct_keys [OF inv] by (rule distinct_card)
  finally show ?thesis by simp
qed

lemma inv_size:
  assumes "cache_inv s xs" "capacity s \<noteq> - 1"
  shows "unat (size_c s) = length xs \<and> size_c s \<le> capacity s"
proof -
  from assms have sz: "size_c s = of_nat (length xs)" and le: "length xs \<le> unat (capacity s)"
    by (simp_all add: cache_inv_def counted_def)
  from unat_of_nat_le [OF le] sz have "unat (size_c s) = length xs" by simp
  with le show ?thesis by (simp add: word_le_nat_alt)
qed

section \<open>The claims\<close>

text \<open>
  In the theorems below a state \<open>s\<close> of the cache is any state that a caller can
  reach: \<open>start arg cs = Some s\<close>, the constructor followed by the calls \<open>cs\<close>. The
  recency list is observed by \<open>entries\<close> (most recently used first), the index by
  \<open>map_c\<close>.
\<close>

subsection \<open>Construction\<close>

text \<open>
  C10. Constructing the cache without a capacity argument succeeds, and the cache has
  capacity 10 (and no entries): the default value of the constructor's parameter.
\<close>

theorem default_capacity_is_ten:
  "\<exists>s. (new_ThreadSafeLRU None :: error + ('k::default, 'v::default) ThreadSafeLRU) = Inr s \<and>
        capacity s = 10 \<and> size_c s = 0"
  by (simp add: new_ThreadSafeLRU_def)

text \<open>
  C7. The constructor throws (\<open>invalid_argument\<close>) if and only if the requested
  capacity is 0; then there is no cache object. Otherwise the cache starts with size 0,
  no hits and no misses and the requested capacity, and after any sequence of calls of
  its member functions the capacity is still the requested one.
\<close>

theorem constructor_rejects_zero_only:
  "(new_ThreadSafeLRU (Some c) = (Inl invalid_argument :: error + ('k::default, 'v::default) ThreadSafeLRU)
      \<longleftrightarrow> c = 0) \<and>
   (c = 0 \<longrightarrow> (\<forall>s :: ('k, 'v) ThreadSafeLRU. new_ThreadSafeLRU (Some c) \<noteq> Inr s)) \<and>
   (c \<noteq> 0 \<longrightarrow>
      (\<exists>s0 :: ('k, 'v) ThreadSafeLRU. new_ThreadSafeLRU (Some c) = Inr s0 \<and>
         capacity s0 = c \<and> size_c s0 = 0 \<and> hits s0 = 0 \<and> misses s0 = 0 \<and>
         (\<forall>cs. \<exists>s. run cs s0 = Some s \<and> capacity s = c)))"
proof (cases "c = 0")
  case True
  then show ?thesis by (simp add: new_ThreadSafeLRU_def)
next
  case False
  then obtain s0 :: "('k, 'v) ThreadSafeLRU" where
    s0: "new_ThreadSafeLRU (Some c) = Inr s0"
    and f: "capacity s0 = c" "size_c s0 = 0" "hits s0 = 0" "misses s0 = 0"
    by (simp add: new_ThreadSafeLRU_def)
  have "\<exists>s. run cs s0 = Some s \<and> capacity s = c" for cs
    using run_capacity [OF s0, of cs] f by simp
  then show ?thesis using False s0 f by simp
qed

theorem constructor_rejects_zero_only_witness:
  "new_ThreadSafeLRU (Some 0) = (Inl invalid_argument :: error + (string, int) ThreadSafeLRU) \<and>
   (\<exists>s0 :: (string, int) ThreadSafeLRU. new_ThreadSafeLRU (Some 3) = Inr s0 \<and>
      capacity s0 = 3 \<and> size_c s0 = 0 \<and> hits s0 = 0 \<and> misses s0 = 0 \<and>
      (\<forall>cs. \<exists>s. run cs s0 = Some s \<and> capacity s = 3))"
  using constructor_rejects_zero_only [of 0, where ?'k = string and ?'v = int]
    constructor_rejects_zero_only [of 3, where ?'k = string and ?'v = int]
  by simp

subsection \<open>\<open>contains\<close>\<close>

text \<open>
  C6. In every reachable state, \<open>contains k\<close> returns true exactly when \<open>k\<close> is the
  key of an entry of the recency list (equally: a key of the index), and it returns the
  state it was given: entries, recency order, size, hits and misses are untouched, also
  after any number \<open>n\<close> of calls.
\<close>

theorem contains_is_a_pure_test:
  assumes "start arg cs = Some s"
  shows "\<exists>es. entries s = Some es \<and>
           (fst (contains k s) \<longleftrightarrow> k \<in> fst ` set es) \<and>
           (fst (contains k s) \<longleftrightarrow> k \<in> dom (map_c s)) \<and>
           snd (contains k s) = s \<and>
           ((\<lambda>t. snd (contains k t)) ^^ n) s = s"
proof -
  from start_inv [OF assms] obtain xs where inv: "cache_inv s xs" by blast
  have "((\<lambda>t. snd (contains k t)) ^^ n) s = s"
    by (induction n) (simp_all add: contains_def)
  moreover have "fst (contains k s) \<longleftrightarrow> k \<in> dom (map_c s)"
    by (auto simp: contains_def)
  ultimately show ?thesis
    using inv_entries [OF inv] inv_dom [OF inv] by (simp add: contains_def)
qed

theorem contains_is_a_pure_test_witness:
  "\<exists>s es. start (Some 3) [Put ''a'' (1::int), Put ''b'' 2] = Some s \<and> entries s = Some es \<and>
      (fst (contains ''a'' s) \<longleftrightarrow> ''a'' \<in> fst ` set es) \<and>
      (fst (contains ''a'' s) \<longleftrightarrow> ''a'' \<in> dom (map_c s)) \<and>
      snd (contains ''a'' s) = s \<and>
      ((\<lambda>t. snd (contains ''a'' t)) ^^ 5) s = s"
proof -
  have "start (Some 3) [Put ''a'' (1::int), Put ''b'' 2] \<noteq> None"
    by code_simp
  then obtain s where s: "start (Some 3) [Put ''a'' (1::int), Put ''b'' 2] = Some s"
    by blast
  from contains_is_a_pure_test [OF s, of "''a''" 5] show ?thesis
    using s by blast
qed

subsection \<open>\<open>get\<close>\<close>

lemma inv_key: "cache_inv s xs \<Longrightarrow> map_c s k = Some a \<Longrightarrow> fst (kv (heap s) a) = k"
  unfolding cache_inv_def agree_def by blast

lemma filter_others:
  "\<forall>b\<in>set ys. fst (f b) \<noteq> k \<Longrightarrow> filter (\<lambda>e. fst e \<noteq> k) (map f ys) = map f ys"
  by (induction ys) auto

lemma hit_view:
  assumes inv: "cache_inv s xs" and m: "map_c s k = Some a"
  shows "\<exists>us vs. xs = us @ a # vs \<and> fst (kv (heap s) a) = k \<and>
           filter (\<lambda>e. fst e \<noteq> k) (map (kv (heap s)) xs) = map (kv (heap s)) (us @ vs)"
proof -
  let ?f = "kv (heap s)"
  from inv_mem [OF inv m] obtain us vs where xs: "xs = us @ a # vs" by blast
  have k: "fst (?f a) = k" by (rule inv_key [OF inv m])
  from inv have ag: "agree (map_c s) ?f xs" and d: "distinct xs"
    by (simp_all add: cache_inv_def shape_def)
  have o: "\<forall>b\<in>set (us @ vs). fst (?f b) \<noteq> k"
  proof
    fix b assume b: "b \<in> set (us @ vs)"
    then have "b \<in> set xs" "b \<noteq> a" using d xs by auto
    moreover have "a \<in> set xs" using xs by simp
    ultimately show "fst (?f b) \<noteq> k" using agree_inj [OF ag, of b a] k by auto
  qed
  then have "filter (\<lambda>e. fst e \<noteq> k) (map ?f us) = map ?f us"
    and "filter (\<lambda>e. fst e \<noteq> k) (map ?f vs) = map ?f vs"
    by (simp_all add: filter_others)
  then have "filter (\<lambda>e. fst e \<noteq> k) (map ?f xs) = map ?f (us @ vs)"
    using k xs by simp
  then show ?thesis using xs k by blast
qed

lemma entries_stats [simp]:
  "entries (s\<lparr>misses := x\<rparr>) = entries s"
  "entries (s\<lparr>hits := y\<rparr>) = entries s"
  by (simp_all add: entries_def)

text \<open>
  What \<open>get\<close> does in every reachable state, in the arithmetic of the counters.
  \<open>get k\<close> throws \<open>out_of_range\<close> (the spec's KeyNotFound) if and only if no
  entry has the key \<open>k\<close>. Then the state is the old one with \<open>misses + 1\<close>:
  entries and recency order are unchanged, and so is \<open>hits\<close>. When an entry
  \<open>(k, v)\<close> exists, \<open>get k\<close> returns \<open>v\<close>, the entry moves to the front of the
  recency list, the other entries keep their order, \<open>hits\<close> becomes \<open>hits + 1\<close> and
  \<open>misses\<close> stays. The sums are those of 32-bit words: they take \<open>2 ^ 32 - 1\<close> to 0.
\<close>

lemma get_hits_or_misses:
  assumes "start arg cs = Some s"
  shows "\<exists>es. entries s = Some es \<and> distinct (map fst es) \<and>
           ((\<exists>s'. get k s = Some (Inl out_of_range, s')) \<longleftrightarrow> k \<notin> fst ` set es) \<and>
           (k \<notin> fst ` set es \<longrightarrow>
              get k s = Some (Inl out_of_range, s\<lparr>misses := misses s + 1\<rparr>) \<and>
              entries (s\<lparr>misses := misses s + 1\<rparr>) = Some es) \<and>
           (k \<in> fst ` set es \<longrightarrow>
              (\<exists>v s'. (k, v) \<in> set es \<and> get k s = Some (Inr v, s') \<and>
                 entries s' = Some ((k, v) # filter (\<lambda>e. fst e \<noteq> k) es) \<and>
                 hits s' = hits s + 1 \<and> misses s' = misses s \<and>
                 map_c s' = map_c s \<and> size_c s' = size_c s \<and> capacity s' = capacity s))"
proof -
  from start_inv [OF assms] obtain xs where inv: "cache_inv s xs" by blast
  let ?f = "kv (heap s)"
  let ?es = "map ?f xs"
  have es: "entries s = Some ?es" by (rule inv_entries [OF inv])
  have dk: "distinct (map fst ?es)" by (rule inv_distinct_keys [OF inv])
  have dom: "dom (map_c s) = fst ` set ?es" by (rule inv_dom [OF inv])
  show ?thesis
  proof (cases "map_c s k")
    case None
    then have "k \<notin> fst ` set ?es" using dom by auto
    then show ?thesis using es dk get_miss [OF None] by (intro exI [of _ ?es]) simp
  next
    case (Some a)
    then have kin: "k \<in> fst ` set ?es" using dom by auto
    from hit_view [OF inv Some] obtain us vs where xs: "xs = us @ a # vs"
      and k: "fst (?f a) = k"
      and fl: "filter (\<lambda>e. fst e \<noteq> k) ?es = map ?f (us @ vs)"
      by blast
    define v where "v = snd (?f a)"
    have fa: "?f a = (k, v)" using k by (simp add: v_def prod_eq_iff)
    from get_hit [OF inv [unfolded xs] Some] obtain s' where
      g: "get k s = Some (Inr v, s')" and inv': "cache_inv s' (a # us @ vs)"
      and kv': "kv (heap s') = ?f"
      and f: "hits s' = hits s + 1" "misses s' = misses s" "map_c s' = map_c s"
        "size_c s' = size_c s" "capacity s' = capacity s"
      unfolding v_def by blast
    have "entries s' = Some (map ?f (a # us @ vs))"
      using inv_entries [OF inv'] kv' by simp
    then have e': "entries s' = Some ((k, v) # filter (\<lambda>e. fst e \<noteq> k) ?es)"
      using fa fl by simp
    have mem: "(k, v) \<in> set ?es" using fa xs by (simp add: image_iff)
    have "\<exists>v s'. (k, v) \<in> set ?es \<and> get k s = Some (Inr v, s') \<and>
                 entries s' = Some ((k, v) # filter (\<lambda>e. fst e \<noteq> k) ?es) \<and>
                 hits s' = hits s + 1 \<and> misses s' = misses s \<and>
                 map_c s' = map_c s \<and> size_c s' = size_c s \<and> capacity s' = capacity s"
      using mem g e' f by blast
    moreover have "\<not> (\<exists>s'. get k s = Some (Inl out_of_range, s'))" using g by simp
    ultimately show ?thesis using es dk kin by (intro exI [of _ ?es]) blast
  qed
qed

lemma get_hits_or_misses_example:
  "\<exists>s s'. start (Some 3) [Put ''a'' (1::int), Put ''b'' 2] = Some s \<and>
      entries s = Some [(''b'', 2), (''a'', 1)] \<and>
      get ''a'' s = Some (Inr 1, s') \<and> entries s' = Some [(''a'', 1), (''b'', 2)] \<and>
      hits s' = hits s + 1 \<and> misses s' = misses s \<and>
      get ''z'' s = Some (Inl out_of_range, s\<lparr>misses := misses s + 1\<rparr>)"
proof -
  let ?cs = "[Put ''a'' (1::int), Put ''b'' 2]"
  have "start (Some 3) ?cs \<noteq> None" by code_simp
  then obtain s where s: "start (Some 3) ?cs = Some s" by blast
  have "Option.bind (start (Some 3) ?cs) entries = Some [(''b'', 2), (''a'', 1)]"
    by code_simp
  then have es: "entries s = Some [(''b'', 2), (''a'', 1)]" using s by simp
  from get_hits_or_misses [OF s, of "''a''"] es obtain s' where
    "get ''a'' s = Some (Inr 1, s')" "entries s' = Some [(''a'', 1), (''b'', 2)]"
    "hits s' = hits s + 1" "misses s' = misses s"
    by auto
  moreover from get_hits_or_misses [OF s, of "''z''"] es
  have "get ''z'' s = Some (Inl out_of_range, s\<lparr>misses := misses s + 1\<rparr>)"
    by auto
  ultimately show ?thesis using s es by blast
qed

subsection \<open>\<open>remove\<close>\<close>

text \<open>
  What \<open>remove\<close> does in every reachable state, in the arithmetic of the counters.
  \<open>remove k\<close> returns true if and only if an entry has the key \<open>k\<close>. Then that
  entry leaves the recency list (the others keep their order) and the index, \<open>size\<close>
  becomes \<open>size - 1\<close> as a 32-bit word (its value decreases by one whenever the
  capacity is below \<open>2 ^ 32 - 1\<close>), the statistics do not change, and a following
  \<open>get k\<close> throws \<open>out_of_range\<close>. When no entry has the key, \<open>remove k\<close> returns
  false and the state it was given.
\<close>

lemma remove_deletes_the_entry:
  assumes "start arg cs = Some s"
  shows "\<exists>es. entries s = Some es \<and>
           ((\<exists>s'. remove k s = Some (True, s')) \<longleftrightarrow> k \<in> fst ` set es) \<and>
           (k \<notin> fst ` set es \<longrightarrow> remove k s = Some (False, s)) \<and>
           (k \<in> fst ` set es \<longrightarrow>
              (\<exists>s' s''. remove k s = Some (True, s') \<and>
                 entries s' = Some (filter (\<lambda>e. fst e \<noteq> k) es) \<and>
                 length (filter (\<lambda>e. fst e \<noteq> k) es) + 1 = length es \<and>
                 map_c s' = (map_c s)(k := None) \<and>
                 size_c s' = size_c s - 1 \<and>
                 (capacity s \<noteq> - 1 \<longrightarrow> unat (size_c s') + 1 = unat (size_c s)) \<and>
                 hits s' = hits s \<and> misses s' = misses s \<and> capacity s' = capacity s \<and>
                 get k s' = Some (Inl out_of_range, s'')))"
proof -
  from start_inv [OF assms] obtain xs where inv: "cache_inv s xs" by blast
  let ?f = "kv (heap s)"
  let ?es = "map ?f xs"
  have es: "entries s = Some ?es" by (rule inv_entries [OF inv])
  have dom: "dom (map_c s) = fst ` set ?es" by (rule inv_dom [OF inv])
  show ?thesis
  proof (cases "map_c s k")
    case None
    then have "k \<notin> fst ` set ?es" using dom by auto
    then show ?thesis using es remove_miss [OF None] by (intro exI [of _ ?es]) simp
  next
    case (Some a)
    then have kin: "k \<in> fst ` set ?es" using dom by auto
    from hit_view [OF inv Some] obtain us vs where xs: "xs = us @ a # vs"
      and fl: "filter (\<lambda>e. fst e \<noteq> k) ?es = map ?f (us @ vs)"
      by blast
    from remove_hit [OF inv [unfolded xs] Some] obtain s' where
      r: "remove k s = Some (True, s')" and inv': "cache_inv s' (us @ vs)"
      and kv': "kv (heap s') = ?f"
      and f: "hits s' = hits s" "misses s' = misses s" "map_c s' = (map_c s)(k := None)"
        "size_c s' = size_c s - 1" "capacity s' = capacity s"
      by blast
    have "entries s' = Some (map ?f (us @ vs))"
      using inv_entries [OF inv'] kv' by simp
    then have e': "entries s' = Some (filter (\<lambda>e. fst e \<noteq> k) ?es)"
      using fl by simp
    have len: "length (filter (\<lambda>e. fst e \<noteq> k) ?es) + 1 = length ?es"
      unfolding fl using xs by simp
    have sz: "capacity s \<noteq> - 1 \<longrightarrow> unat (size_c s') + 1 = unat (size_c s)"
    proof
      assume c: "capacity s \<noteq> - 1"
      then have "capacity s' \<noteq> - 1" using f by simp
      from inv_size [OF inv c] inv_size [OF inv' this] show "unat (size_c s') + 1 = unat (size_c s)"
        using xs by simp
    qed
    have "map_c s' k = None" using f by simp
    from get_miss [OF this] have g: "get k s' = Some (Inl out_of_range, s'\<lparr>misses := misses s' + 1\<rparr>)" .
    have "\<exists>s' s''. remove k s = Some (True, s') \<and>
                 entries s' = Some (filter (\<lambda>e. fst e \<noteq> k) ?es) \<and>
                 length (filter (\<lambda>e. fst e \<noteq> k) ?es) + 1 = length ?es \<and>
                 map_c s' = (map_c s)(k := None) \<and>
                 size_c s' = size_c s - 1 \<and>
                 (capacity s \<noteq> - 1 \<longrightarrow> unat (size_c s') + 1 = unat (size_c s)) \<and>
                 hits s' = hits s \<and> misses s' = misses s \<and> capacity s' = capacity s \<and>
                 get k s' = Some (Inl out_of_range, s'')"
      using r e' len f g sz by blast
    then show ?thesis using es kin by (intro exI [of _ ?es]) blast
  qed
qed

lemma remove_deletes_the_entry_example:
  "\<exists>s s' s''. start (Some 3) [Put ''a'' (1::int), Put ''b'' 2] = Some s \<and>
      entries s = Some [(''b'', 2), (''a'', 1)] \<and>
      remove ''a'' s = Some (True, s') \<and> entries s' = Some [(''b'', 2)] \<and>
      size_c s' = size_c s - 1 \<and> map_c s' ''a'' = None \<and>
      get ''a'' s' = Some (Inl out_of_range, s'') \<and>
      remove ''z'' s = Some (False, s)"
proof -
  let ?cs = "[Put ''a'' (1::int), Put ''b'' 2]"
  have "start (Some 3) ?cs \<noteq> None" by code_simp
  then obtain s where s: "start (Some 3) ?cs = Some s" by blast
  have "Option.bind (start (Some 3) ?cs) entries = Some [(''b'', 2), (''a'', 1)]"
    by code_simp
  then have es: "entries s = Some [(''b'', 2), (''a'', 1)]" using s by simp
  from remove_deletes_the_entry [OF s, of "''a''"] es
  have "\<exists>s' s''. remove ''a'' s = Some (True, s') \<and> entries s' = Some [(''b'', 2)] \<and>
      size_c s' = size_c s - 1 \<and> map_c s' = (map_c s)(''a'' := None) \<and>
      get ''a'' s' = Some (Inl out_of_range, s'')"
    by simp blast
  then obtain s' s'' where
    "remove ''a'' s = Some (True, s')" "entries s' = Some [(''b'', 2)]"
    "size_c s' = size_c s - 1" "map_c s' ''a'' = None"
    "get ''a'' s' = Some (Inl out_of_range, s'')"
    by auto
  moreover from remove_deletes_the_entry [OF s, of "''z''"] es
  have "remove ''z'' s = Some (False, s)"
    by auto
  ultimately show ?thesis using s es by blast
qed

subsection \<open>\<open>put\<close>\<close>

lemma put_front:
  assumes inv: "cache_inv s xs"
  shows "\<exists>s' a xs'. put k v s = Some s' \<and> cache_inv s' (a # xs') \<and> kv (heap s') a = (k, v) \<and>
           map_c s' k = Some a"
proof (cases "map_c s k")
  case None
  from put_new [OF inv None, of v] obtain s' where
    p: "put k v s = Some s'" and kv': "kv (heap s') = (kv (heap s))(brk s := (k, v))"
    and d: "if size_c s + 1 > capacity s then cache_inv s' (brk s # butlast xs)
          else cache_inv s' (brk s # xs)"
    by (cases "size_c s + 1 > capacity s") auto
  from d obtain xs' where inv': "cache_inv s' (brk s # xs')"
    by (cases "size_c s + 1 > capacity s") auto
  have k: "kv (heap s') (brk s) = (k, v)" using kv' by simp
  from inv' have "agree (map_c s') (kv (heap s')) (brk s # xs')" by (simp add: cache_inv_def)
  then have "map_c s' k = Some (brk s)" using k unfolding agree_def by simp
  with p inv' k show ?thesis by blast
next
  case (Some a)
  from inv_mem [OF inv Some] obtain us vs where xs: "xs = us @ a # vs" by blast
  from put_existing [OF inv [unfolded xs] Some, of v] obtain s' where
    p: "put k v s = Some s'" and inv': "cache_inv s' (a # us @ vs)"
    and kv': "kv (heap s') = (kv (heap s))(a := (k, v))" and m: "map_c s' = map_c s"
    by blast
  have "kv (heap s') a = (k, v)" using kv' by simp
  with p inv' m Some show ?thesis by (intro exI [of _ s'] exI [of _ a] exI [of _ "us @ vs"]) simp
qed

text \<open>
  C4. In every reachable state, \<open>put k v2\<close> on a key that has an entry replaces the
  value of that entry by \<open>v2\<close> and moves it to the front of the recency list; the
  other entries keep their order, and neither the number of entries nor \<open>size\<close> nor
  the index changes. After \<open>put k v1\<close> and then \<open>put k v2\<close>, from any reachable
  state, \<open>size\<close> is what it was after the first \<open>put\<close>, and \<open>get k\<close> returns
  \<open>v2\<close>.
\<close>

theorem put_existing_key_updates_in_place:
  assumes "start arg cs = Some s"
  shows "\<exists>es. entries s = Some es \<and>
           (k \<in> fst ` set es \<longrightarrow>
              (\<exists>s'. put k v2 s = Some s' \<and>
                 entries s' = Some ((k, v2) # filter (\<lambda>e. fst e \<noteq> k) es) \<and>
                 length ((k, v2) # filter (\<lambda>e. fst e \<noteq> k) es) = length es \<and>
                 size_c s' = size_c s \<and> map_c s' = map_c s \<and>
                 hits s' = hits s \<and> misses s' = misses s \<and> capacity s' = capacity s)) \<and>
           (\<exists>s1 s2 s3. put k v1 s = Some s1 \<and> put k v2 s1 = Some s2 \<and>
              size_c s2 = size_c s1 \<and> get k s2 = Some (Inr v2, s3))"
proof -
  from start_inv [OF assms] obtain xs where inv: "cache_inv s xs" by blast
  let ?f = "kv (heap s)"
  let ?es = "map ?f xs"
  have es: "entries s = Some ?es" by (rule inv_entries [OF inv])
  have dom: "dom (map_c s) = fst ` set ?es" by (rule inv_dom [OF inv])
  have A: "k \<in> fst ` set ?es \<longrightarrow>
              (\<exists>s'. put k v2 s = Some s' \<and>
                 entries s' = Some ((k, v2) # filter (\<lambda>e. fst e \<noteq> k) ?es) \<and>
                 length ((k, v2) # filter (\<lambda>e. fst e \<noteq> k) ?es) = length ?es \<and>
                 size_c s' = size_c s \<and> map_c s' = map_c s \<and>
                 hits s' = hits s \<and> misses s' = misses s \<and> capacity s' = capacity s)"
  proof
    assume "k \<in> fst ` set ?es"
    then have "k \<in> dom (map_c s)" unfolding dom .
    then obtain a where m: "map_c s k = Some a" by blast
    from hit_view [OF inv m] obtain us vs where xs: "xs = us @ a # vs"
      and fl: "filter (\<lambda>e. fst e \<noteq> k) ?es = map ?f (us @ vs)"
      by blast
    from inv have "distinct xs" by (simp add: cache_inv_def shape_def)
    then have an: "a \<notin> set (us @ vs)" using xs by auto
    from put_existing [OF inv [unfolded xs] m, of v2] obtain s' where
      p: "put k v2 s = Some s'" and inv': "cache_inv s' (a # us @ vs)"
      and kv': "kv (heap s') = ?f(a := (k, v2))"
      and f: "hits s' = hits s" "misses s' = misses s" "map_c s' = map_c s"
        "size_c s' = size_c s" "capacity s' = capacity s"
      by blast
    have "map (?f(a := (k, v2))) (us @ vs) = map ?f (us @ vs)"
      using an by (intro map_cong) auto
    then have "entries s' = Some ((k, v2) # map ?f (us @ vs))"
      using inv_entries [OF inv'] kv' by simp
    then have e': "entries s' = Some ((k, v2) # filter (\<lambda>e. fst e \<noteq> k) ?es)"
      using fl by simp
    have len: "length ((k, v2) # filter (\<lambda>e. fst e \<noteq> k) ?es) = length ?es"
      unfolding fl using xs by simp
    show "\<exists>s'. put k v2 s = Some s' \<and>
                 entries s' = Some ((k, v2) # filter (\<lambda>e. fst e \<noteq> k) ?es) \<and>
                 length ((k, v2) # filter (\<lambda>e. fst e \<noteq> k) ?es) = length ?es \<and>
                 size_c s' = size_c s \<and> map_c s' = map_c s \<and>
                 hits s' = hits s \<and> misses s' = misses s \<and> capacity s' = capacity s"
      using p e' len f by blast
  qed
  have B: "\<exists>s1 s2 s3. put k v1 s = Some s1 \<and> put k v2 s1 = Some s2 \<and>
              size_c s2 = size_c s1 \<and> get k s2 = Some (Inr v2, s3)"
  proof -
    from put_front [OF inv, of k v1] obtain s1 a xs1 where
      p1: "put k v1 s = Some s1" and inv1: "cache_inv s1 (a # xs1)" and m1: "map_c s1 k = Some a"
      by blast
    from inv1 have inv1': "cache_inv s1 ([] @ a # xs1)" by simp
    from put_existing [OF inv1' m1, of v2] obtain s2 where
      p2: "put k v2 s1 = Some s2" and inv2: "cache_inv s2 (a # [] @ xs1)"
      and kv2: "kv (heap s2) = (kv (heap s1))(a := (k, v2))"
      and f: "map_c s2 = map_c s1" "size_c s2 = size_c s1"
      by blast
    from inv2 have inv2': "cache_inv s2 ([] @ a # xs1)" by simp
    have m2: "map_c s2 k = Some a" using f m1 by simp
    from get_hit [OF inv2' m2] obtain s3 where
      "get k s2 = Some (Inr (snd (kv (heap s2) a)), s3)"
      by blast
    then have "get k s2 = Some (Inr v2, s3)" using kv2 by simp
    with p1 p2 f show ?thesis by blast
  qed
  show ?thesis using es A B by (intro exI [of _ ?es]) blast
qed

theorem put_existing_key_updates_in_place_witness:
  "\<exists>s s' s1 s2 s3. start (Some 3) [Put ''a'' (1::int), Put ''b'' 2] = Some s \<and>
      entries s = Some [(''b'', 2), (''a'', 1)] \<and>
      put ''a'' 7 s = Some s' \<and> entries s' = Some [(''a'', 7), (''b'', 2)] \<and>
      size_c s' = size_c s \<and>
      put ''c'' 1 s = Some s1 \<and> put ''c'' 2 s1 = Some s2 \<and> size_c s2 = size_c s1 \<and>
      get ''c'' s2 = Some (Inr 2, s3)"
proof -
  let ?cs = "[Put ''a'' (1::int), Put ''b'' 2]"
  have "start (Some 3) ?cs \<noteq> None" by code_simp
  then obtain s where s: "start (Some 3) ?cs = Some s" by blast
  have "Option.bind (start (Some 3) ?cs) entries = Some [(''b'', 2), (''a'', 1)]"
    by code_simp
  then have es: "entries s = Some [(''b'', 2), (''a'', 1)]" using s by simp
  from put_existing_key_updates_in_place [OF s, of "''a''" 7] es
  have "\<exists>s'. put ''a'' 7 s = Some s' \<and> entries s' = Some [(''a'', 7), (''b'', 2)] \<and>
      size_c s' = size_c s"
    by simp blast
  moreover from put_existing_key_updates_in_place [OF s, of "''c''" 2 1]
  have "\<exists>s1 s2 s3. put ''c'' 1 s = Some s1 \<and> put ''c'' 2 s1 = Some s2 \<and>
      size_c s2 = size_c s1 \<and> get ''c'' s2 = Some (Inr 2, s3)"
    by blast
  ultimately show ?thesis using s es by blast
qed

lemma put_new_view:
  assumes inv: "cache_inv s xs" and m: "map_c s k = None"
  shows "\<exists>s'. put k v s = Some s' \<and>
           hits s' = hits s \<and> misses s' = misses s \<and> capacity s' = capacity s \<and>
           (if size_c s + 1 > capacity s
            then xs \<noteq> [] \<and> cache_inv s' (brk s # butlast xs) \<and>
                 entries s' = Some ((k, v) # butlast (map (kv (heap s)) xs)) \<and>
                 dom (map_c s') = insert k (dom (map_c s) - {fst (last (map (kv (heap s)) xs))}) \<and>
                 size_c s' = size_c s
            else cache_inv s' (brk s # xs) \<and>
                 entries s' = Some ((k, v) # map (kv (heap s)) xs) \<and>
                 dom (map_c s') = insert k (dom (map_c s)) \<and>
                 size_c s' = size_c s + 1)"
proof -
  let ?f = "kv (heap s)"
  from inv have sh: "shape s xs" and fr: "\<forall>b. brk s \<le> b \<longrightarrow> heap s b = None"
    by (simp_all add: cache_inv_def)
  from fr have "heap s (brk s) = None" by simp
  with shape_allocated [OF sh, of "brk s"] have "brk s \<notin> set (head s # xs @ [tail s])" by blast
  then have an: "brk s \<notin> set xs" by simp
  from put_new [OF inv m, of v] obtain s' where
    p: "put k v s = Some s'" and kv': "kv (heap s') = ?f(brk s := (k, v))"
    and f: "hits s' = hits s" "misses s' = misses s" "capacity s' = capacity s"
    and d: "if size_c s + 1 > capacity s
            then xs \<noteq> [] \<and> cache_inv s' (brk s # butlast xs) \<and>
                 map_c s' = (map_c s)(k \<mapsto> brk s, fst (?f (last xs)) := None) \<and>
                 size_c s' = size_c s
            else cache_inv s' (brk s # xs) \<and> map_c s' = (map_c s)(k \<mapsto> brk s) \<and>
                 size_c s' = size_c s + 1"
    by blast
  have same: "map (?f(brk s := (k, v))) ys = map ?f ys" if "set ys \<subseteq> set xs" for ys
    using that an by (intro map_cong) auto
  show ?thesis
  proof (cases "size_c s + 1 > capacity s")
    case True
    with d have ne: "xs \<noteq> []" and inv': "cache_inv s' (brk s # butlast xs)"
      and m': "map_c s' = (map_c s)(k \<mapsto> brk s, fst (?f (last xs)) := None)"
      and sz: "size_c s' = size_c s"
      by simp_all
    have "set (butlast xs) \<subseteq> set xs" by (auto dest: in_set_butlastD)
    then have "entries s' = Some ((k, v) # map ?f (butlast xs))"
      using inv_entries [OF inv'] kv' same by simp
    then have e': "entries s' = Some ((k, v) # butlast (map ?f xs))"
      by (simp add: map_butlast)
    have "last xs \<in> set xs" using ne by simp
    then have "fst (?f (last xs)) \<in> dom (map_c s)"
      using inv_dom [OF inv] by (simp add: image_iff) blast
    then have "fst (?f (last xs)) \<noteq> k" using m by auto
    then have "dom (map_c s') = insert k (dom (map_c s) - {fst (?f (last xs))})"
      unfolding m' by auto
    then have d': "dom (map_c s') = insert k (dom (map_c s) - {fst (last (map ?f xs))})"
      using ne by (simp add: last_map)
    show ?thesis using True p f ne inv' e' d' sz by (intro exI [of _ s']) simp
  next
    case False
    with d have inv': "cache_inv s' (brk s # xs)"
      and m': "map_c s' = (map_c s)(k \<mapsto> brk s)"
      and sz: "size_c s' = size_c s + 1"
      by simp_all
    have e': "entries s' = Some ((k, v) # map ?f xs)"
      using inv_entries [OF inv'] kv' same [of xs] by simp
    have d': "dom (map_c s') = insert k (dom (map_c s))"
      unfolding m' by simp
    show ?thesis using False p f inv' e' d' sz by (intro exI [of _ s']) simp
  qed
qed

lemma put_new_key:
  assumes "start arg cs = Some s"
  shows "\<exists>es. entries s = Some es \<and>
           (k \<notin> fst ` set es \<and> size_c s + 1 > capacity s \<longrightarrow>
              es \<noteq> [] \<and>
              (\<exists>s'. put k v s = Some s' \<and> entries s' = Some ((k, v) # butlast es) \<and>
                 dom (map_c s) = fst ` set es \<and>
                 dom (map_c s') = insert k (dom (map_c s) - {fst (last es)}) \<and>
                 size_c s' = size_c s \<and> size_c s' \<le> capacity s')) \<and>
           (k \<notin> fst ` set es \<and> \<not> size_c s + 1 > capacity s \<longrightarrow>
              (\<exists>s'. put k v s = Some s' \<and> entries s' = Some ((k, v) # es) \<and>
                 dom (map_c s') = insert k (dom (map_c s)) \<and>
                 size_c s' = size_c s + 1))"
proof -
  from start_inv [OF assms] obtain xs where inv: "cache_inv s xs" by blast
  let ?es = "map (kv (heap s)) xs"
  have es: "entries s = Some ?es" by (rule inv_entries [OF inv])
  have dom: "dom (map_c s) = fst ` set ?es" by (rule inv_dom [OF inv])
  show ?thesis
  proof (cases "k \<in> fst ` set ?es")
    case True
    then show ?thesis using es by (intro exI [of _ ?es]) simp
  next
    case False
    then have m: "map_c s k = None" using dom by auto
    from put_new_view [OF inv m, of v] obtain s' where
      p: "put k v s = Some s'" and c: "capacity s' = capacity s"
      and d: "if size_c s + 1 > capacity s
            then xs \<noteq> [] \<and> cache_inv s' (brk s # butlast xs) \<and>
                 entries s' = Some ((k, v) # butlast ?es) \<and>
                 dom (map_c s') = insert k (dom (map_c s) - {fst (last ?es)}) \<and>
                 size_c s' = size_c s
            else cache_inv s' (brk s # xs) \<and>
                 entries s' = Some ((k, v) # ?es) \<and>
                 dom (map_c s') = insert k (dom (map_c s)) \<and>
                 size_c s' = size_c s + 1"
      by blast
    show ?thesis
    proof (cases "size_c s + 1 > capacity s")
      case True
      then have "capacity s' \<noteq> - 1" using c no_gt_max by auto
      moreover from d True have "cache_inv s' (brk s # butlast xs)" by simp
      ultimately have "size_c s' \<le> capacity s'" using inv_size by blast
      with True d p es dom show ?thesis by (intro exI [of _ ?es]) simp
    next
      case False
      with d p es show ?thesis by (intro exI [of _ ?es]) simp
    qed
  qed
qed

lemma lru_example:
  "\<exists>s s'. start (Some 3) [Put ''a'' (1::int), Put ''b'' 2, Put ''c'' 3, Get ''a''] = Some s \<and>
      entries s = Some [(''a'', 1), (''c'', 3), (''b'', 2)] \<and>
      put ''d'' 4 s = Some s' \<and>
      entries s' = Some [(''d'', 4), (''a'', 1), (''c'', 3)] \<and>
      dom (map_c s') = {''a'', ''c'', ''d''} \<and> ''b'' \<notin> dom (map_c s') \<and>
      size_c s' \<le> capacity s'"
proof -
  let ?cs = "[Put ''a'' (1::int), Put ''b'' 2, Put ''c'' 3, Get ''a'']"
  have "start (Some 3) ?cs \<noteq> None" by code_simp
  then obtain s where s: "start (Some 3) ?cs = Some s" by blast
  have "Option.bind (start (Some 3) ?cs) entries = Some [(''a'', 1), (''c'', 3), (''b'', 2)]"
    by code_simp
  then have es: "entries s = Some [(''a'', 1), (''c'', 3), (''b'', 2)]" using s by simp
  have "map_option size_c (start (Some 3) ?cs) = Some 3"
    and "map_option capacity (start (Some 3) ?cs) = Some 3"
    by code_simp+
  then have full: "size_c s + 1 > capacity s" using s by simp
  from put_new_key [OF s, of "''d''" 4] obtain es where
    e: "entries s = Some es"
    and i: "''d'' \<notin> fst ` set es \<and> size_c s + 1 > capacity s \<longrightarrow>
      es \<noteq> [] \<and> (\<exists>s'. put ''d'' 4 s = Some s' \<and> entries s' = Some ((''d'', 4) # butlast es) \<and>
         dom (map_c s) = fst ` set es \<and>
         dom (map_c s') = insert ''d'' (dom (map_c s) - {fst (last es)}) \<and>
         size_c s' = size_c s \<and> size_c s' \<le> capacity s')"
    by (elim exE conjE)
  from e es have es': "es = [(''a'', 1), (''c'', 3), (''b'', 2)]" by simp
  have n: "''d'' \<notin> fst ` set es" unfolding es' by simp
  from i n full have "\<exists>s'. put ''d'' 4 s = Some s' \<and> entries s' = Some ((''d'', 4) # butlast es) \<and>
         dom (map_c s) = fst ` set es \<and>
         dom (map_c s') = insert ''d'' (dom (map_c s) - {fst (last es)}) \<and>
         size_c s' = size_c s \<and> size_c s' \<le> capacity s'"
    by (elim impE conjE) (rule conjI)
  then obtain s' where p: "put ''d'' 4 s = Some s'"
    and q: "entries s' = Some ((''d'', 4) # butlast es)"
       "dom (map_c s) = fst ` set es"
       "dom (map_c s') = insert ''d'' (dom (map_c s) - {fst (last es)})"
       "size_c s' \<le> capacity s'"
    by (elim exE conjE)
  have s': "entries s' = Some [(''d'', 4), (''a'', 1), (''c'', 3)]"
    "dom (map_c s) = {''a'', ''c'', ''b''}"
    "dom (map_c s') = insert ''d'' (dom (map_c s) - {''b''})"
    using q(1,2,3) unfolding es' by simp_all
  have "dom (map_c s') = {''a'', ''c'', ''d''}" unfolding s'(3) s'(2) by auto
  then have "''b'' \<notin> dom (map_c s')" by simp
  with s es p s'(1) q(4) \<open>dom (map_c s') = {''a'', ''c'', ''d''}\<close>
  show ?thesis by (intro exI [of _ s] exI [of _ s'] conjI)
qed

text \<open>
  C2. In every reachable state, when \<open>put k v\<close> adds a new key and the incremented
  \<open>size\<close> exceeds \<open>capacity\<close>, exactly one entry is evicted: the last one of the
  recency list, the node next to \<open>tail\<close>. The new entry is at the front, the other
  entries keep their order, the evicted key leaves the index, and \<open>size\<close> is at most
  \<open>capacity\<close> when \<open>put\<close> returns. When the incremented \<open>size\<close> does not exceed
  \<open>capacity\<close>, nothing is evicted. In particular, with capacity 3, after
  \<open>put(a,1), put(b,2), put(c,3), get(a)\<close> the call \<open>put(d,4)\<close> evicts \<open>b\<close>, and
  \<open>a\<close>, \<open>c\<close> and \<open>d\<close> remain.
\<close>

theorem put_evicts_least_recently_used:
  "(\<forall>arg cs (s :: ('k::default, 'v::default) ThreadSafeLRU) k v.
      start arg cs = Some s \<longrightarrow>
      (\<exists>es. entries s = Some es \<and>
         (k \<notin> fst ` set es \<and> size_c s + 1 > capacity s \<longrightarrow>
            es \<noteq> [] \<and>
            (\<exists>s'. put k v s = Some s' \<and> entries s' = Some ((k, v) # butlast es) \<and>
               dom (map_c s) = fst ` set es \<and>
               dom (map_c s') = insert k (dom (map_c s) - {fst (last es)}) \<and>
               size_c s' = size_c s \<and> size_c s' \<le> capacity s')) \<and>
         (k \<notin> fst ` set es \<and> \<not> size_c s + 1 > capacity s \<longrightarrow>
            (\<exists>s'. put k v s = Some s' \<and> entries s' = Some ((k, v) # es) \<and>
               dom (map_c s') = insert k (dom (map_c s)) \<and>
               size_c s' = size_c s + 1)))) \<and>
   (\<exists>s s'. start (Some 3) [Put ''a'' (1::int), Put ''b'' 2, Put ''c'' 3, Get ''a''] = Some s \<and>
      entries s = Some [(''a'', 1), (''c'', 3), (''b'', 2)] \<and>
      put ''d'' 4 s = Some s' \<and>
      entries s' = Some [(''d'', 4), (''a'', 1), (''c'', 3)] \<and>
      dom (map_c s') = {''a'', ''c'', ''d''} \<and> ''b'' \<notin> dom (map_c s') \<and>
      size_c s' \<le> capacity s')"
proof (intro conjI allI impI)
  fix arg cs and s :: "('k, 'v) ThreadSafeLRU" and k v
  assume "start arg cs = Some s"
  then show "\<exists>es. entries s = Some es \<and>
         (k \<notin> fst ` set es \<and> size_c s + 1 > capacity s \<longrightarrow>
            es \<noteq> [] \<and>
            (\<exists>s'. put k v s = Some s' \<and> entries s' = Some ((k, v) # butlast es) \<and>
               dom (map_c s) = fst ` set es \<and>
               dom (map_c s') = insert k (dom (map_c s) - {fst (last es)}) \<and>
               size_c s' = size_c s \<and> size_c s' \<le> capacity s')) \<and>
         (k \<notin> fst ` set es \<and> \<not> size_c s + 1 > capacity s \<longrightarrow>
            (\<exists>s'. put k v s = Some s' \<and> entries s' = Some ((k, v) # es) \<and>
               dom (map_c s') = insert k (dom (map_c s)) \<and>
               size_c s' = size_c s + 1))"
    by (rule put_new_key)
next
  show "\<exists>s s'. start (Some 3) [Put ''a'' (1::int), Put ''b'' 2, Put ''c'' 3, Get ''a''] = Some s \<and>
      entries s = Some [(''a'', 1), (''c'', 3), (''b'', 2)] \<and>
      put ''d'' 4 s = Some s' \<and>
      entries s' = Some [(''d'', 4), (''a'', 1), (''c'', 3)] \<and>
      dom (map_c s') = {''a'', ''c'', ''d''} \<and> ''b'' \<notin> dom (map_c s') \<and>
      size_c s' \<le> capacity s'"
    by (rule lru_example)
qed

theorem put_evicts_least_recently_used_witness:
  "\<exists>s s'. start (Some 1) [Put ''a'' (1::int)] = Some s \<and>
      entries s = Some [(''a'', 1)] \<and>
      put ''b'' 2 s = Some s' \<and> entries s' = Some [(''b'', 2)] \<and>
      size_c s' = size_c s \<and> size_c s' \<le> capacity s'"
proof -
  let ?cs = "[Put ''a'' (1::int)]"
  have "start (Some 1) ?cs \<noteq> None" by code_simp
  then obtain s where s: "start (Some 1) ?cs = Some s" by blast
  have "Option.bind (start (Some 1) ?cs) entries = Some [(''a'', 1)]"
    by code_simp
  then have es: "entries s = Some [(''a'', 1)]" using s by simp
  have "map_option size_c (start (Some 1) ?cs) = Some 1"
    and "map_option capacity (start (Some 1) ?cs) = Some 1"
    by code_simp+
  then have full: "size_c s + 1 > capacity s" using s by simp
  from put_evicts_least_recently_used [THEN conjunct1, rule_format, OF s, of "''b''" 2]
  obtain es where e: "entries s = Some es"
    and i: "''b'' \<notin> fst ` set es \<and> size_c s + 1 > capacity s \<longrightarrow>
      es \<noteq> [] \<and> (\<exists>s'. put ''b'' 2 s = Some s' \<and> entries s' = Some ((''b'', 2) # butlast es) \<and>
         dom (map_c s) = fst ` set es \<and>
         dom (map_c s') = insert ''b'' (dom (map_c s) - {fst (last es)}) \<and>
         size_c s' = size_c s \<and> size_c s' \<le> capacity s')"
    by (elim exE conjE)
  from e es have es': "es = [(''a'', 1)]" by simp
  have n: "''b'' \<notin> fst ` set es" unfolding es' by simp
  from i n full have "\<exists>s'. put ''b'' 2 s = Some s' \<and> entries s' = Some ((''b'', 2) # butlast es) \<and>
         dom (map_c s) = fst ` set es \<and>
         dom (map_c s') = insert ''b'' (dom (map_c s) - {fst (last es)}) \<and>
         size_c s' = size_c s \<and> size_c s' \<le> capacity s'"
    by (elim impE conjE) (rule conjI)
  then obtain s' where p: "put ''b'' 2 s = Some s'"
    and q: "entries s' = Some ((''b'', 2) # butlast es)" "size_c s' = size_c s"
      "size_c s' \<le> capacity s'"
    by (elim exE conjE)
  from q(1) have "entries s' = Some [(''b'', 2)]" unfolding es' by simp
  with p q have "\<exists>s'. put ''b'' 2 s = Some s' \<and> entries s' = Some [(''b'', 2)] \<and>
      size_c s' = size_c s \<and> size_c s' \<le> capacity s'"
    by (intro exI [of _ s'] conjI)
  then obtain s' where "put ''b'' 2 s = Some s'" "entries s' = Some [(''b'', 2)]"
    "size_c s' = size_c s" "size_c s' \<le> capacity s'"
    by (elim exE conjE)
  with s es show ?thesis by (intro exI [of _ s] exI [of _ s'] conjI)
qed

subsection \<open>Inserting new keys one after the other\<close>

lemma run_append: "run (cs @ ds) s = Option.bind (run cs s) (run ds)"
  by (induction cs arbitrary: s) (auto split: option.splits)

lemma not_full:
  assumes "counted sz cap n" "cap \<noteq> - 1 \<longrightarrow> Suc n \<le> unat cap"
  shows "\<not> sz + 1 > cap"
proof (cases "cap = - 1")
  case True
  then show ?thesis using no_gt_max by simp
next
  case False
  with assms have n: "n \<le> unat cap" "Suc n \<le> unat cap" and sz: "sz = of_nat n"
    by (simp_all add: counted_def)
  from unat_of_nat_succ [OF n(1) False] n(2) have "unat (sz + 1) \<le> unat cap" unfolding sz by simp
  then show ?thesis by (simp add: word_le_nat_alt not_less)
qed

lemma is_full:
  assumes "counted sz cap n" "cap \<noteq> - 1" "n = unat cap"
  shows "sz + 1 > cap"
proof -
  from assms have sz: "sz = of_nat n" and n: "n \<le> unat cap" by (simp_all add: counted_def)
  from unat_of_nat_succ [OF n assms(2)] assms(3) have "unat cap < unat (sz + 1)" unfolding sz by simp
  then show ?thesis by (simp add: word_less_nat_alt)
qed

lemma puts_fill:
  assumes "cache_inv s xs" and "distinct (map fst kvs)"
    and "fst ` set kvs \<inter> dom (map_c s) = {}"
    and "capacity s \<noteq> - 1 \<longrightarrow> length xs + length kvs \<le> unat (capacity s)"
  shows "\<exists>s' xs'. run (map (\<lambda>(k, v). Put k v) kvs) s = Some s' \<and> cache_inv s' xs' \<and>
           entries s' = Some (rev kvs @ map (kv (heap s)) xs) \<and>
           dom (map_c s') = dom (map_c s) \<union> fst ` set kvs \<and> capacity s' = capacity s"
  using assms
proof (induction kvs arbitrary: s xs)
  case Nil
  then show ?case using inv_entries [of s xs] by auto
next
  case (Cons e kvs)
  obtain k v where e: "e = (k, v)" by (cases e)
  from Cons.prems(3) have m: "map_c s k = None" unfolding e by auto
  from Cons.prems(1) have "counted (size_c s) (capacity s) (length xs)"
    by (simp add: cache_inv_def)
  moreover from Cons.prems(4) have "capacity s \<noteq> - 1 \<longrightarrow> Suc (length xs) \<le> unat (capacity s)"
    by auto
  ultimately have nf: "\<not> size_c s + 1 > capacity s" by (rule not_full)
  from put_new_view [OF Cons.prems(1) m, of v] nf obtain s1 where
    p: "put k v s = Some s1" and c: "capacity s1 = capacity s"
    and inv1: "cache_inv s1 (brk s # xs)"
    and e1: "entries s1 = Some ((k, v) # map (kv (heap s)) xs)"
    and d1: "dom (map_c s1) = insert k (dom (map_c s))"
    by auto
  from Cons.prems(2) have dk: "distinct (map fst kvs)" and kn: "k \<notin> fst ` set kvs"
    unfolding e by simp_all
  from Cons.prems(3) kn have dj: "fst ` set kvs \<inter> dom (map_c s1) = {}"
    unfolding d1 e by auto
  from Cons.prems(4) c
  have cap: "capacity s1 \<noteq> - 1 \<longrightarrow> length (brk s # xs) + length kvs \<le> unat (capacity s1)"
    by simp
  from Cons.IH [OF inv1 dk dj cap] obtain s' xs' where
    r: "run (map (\<lambda>(k, v). Put k v) kvs) s1 = Some s'" and inv': "cache_inv s' xs'"
    and e': "entries s' = Some (rev kvs @ map (kv (heap s1)) (brk s # xs))"
    and d': "dom (map_c s') = dom (map_c s1) \<union> fst ` set kvs" and c': "capacity s' = capacity s1"
    by blast
  from inv_entries [OF inv1] e1 have "map (kv (heap s1)) (brk s # xs) = (k, v) # map (kv (heap s)) xs"
    by simp
  then have "entries s' = Some (rev (e # kvs) @ map (kv (heap s)) xs)"
    using e' unfolding e by simp
  moreover have "run (map (\<lambda>(k, v). Put k v) (e # kvs)) s = Some s'"
    using p r unfolding e by simp
  moreover have "dom (map_c s') = dom (map_c s) \<union> fst ` set (e # kvs)"
    unfolding d' d1 e by auto
  ultimately show ?case using inv' c c' by (intro exI [of _ s'] exI [of _ xs']) simp
qed

lemma init_fields:
  assumes "new_ThreadSafeLRU (Some c) = Inr s0"
  shows "capacity s0 = c \<and> map_c s0 = Map.empty"
  using assms by (auto simp: new_ThreadSafeLRU_def split: if_splits)

lemma start_fill:
  assumes c0: "c \<noteq> 0" and d: "distinct (map fst kvs)"
    and le: "c \<noteq> - 1 \<longrightarrow> length kvs \<le> unat c"
  shows "\<exists>(s :: ('k::default, 'v::default) ThreadSafeLRU) xs.
           start (Some c) (map (\<lambda>(k, v). Put k v) kvs) = Some s \<and> cache_inv s xs \<and>
           entries s = Some (rev kvs) \<and> dom (map_c s) = fst ` set kvs \<and> capacity s = c"
proof -
  from c0 obtain s0 :: "('k, 'v) ThreadSafeLRU" where s0: "new_ThreadSafeLRU (Some c) = Inr s0"
    by (simp add: new_ThreadSafeLRU_def)
  from init_fields [OF s0] have f: "capacity s0 = c" "map_c s0 = Map.empty" by simp_all
  have inv0: "cache_inv s0 []" by (rule init_inv [OF s0])
  have dj: "fst ` set kvs \<inter> dom (map_c s0) = {}" using f by simp
  have cap: "capacity s0 \<noteq> - 1 \<longrightarrow> length ([]::addr list) + length kvs \<le> unat (capacity s0)"
    using le f by simp
  from puts_fill [OF inv0 d dj cap] obtain s xs where
    "run (map (\<lambda>(k, v). Put k v) kvs) s0 = Some s" "cache_inv s xs"
    "entries s = Some (rev kvs @ map (kv (heap s0)) [])"
    "dom (map_c s) = dom (map_c s0) \<union> fst ` set kvs" "capacity s = capacity s0"
    by blast
  then show ?thesis using s0 f by (intro exI [of _ s] exI [of _ xs]) (simp add: start_def)
qed

lemma start_append:
  "start arg (cs @ ds) = Option.bind (start arg cs) (run ds)"
  by (simp add: start_def run_append split: sum.splits)

text \<open>
  C8, as amended. Let the capacity \<open>c\<close> be neither 0 nor \<open>2 ^ 32 - 1\<close>. Inserting
  \<open>c + 1\<close> entries with different keys into a fresh cache leaves exactly \<open>c\<close> keys:
  those of the \<open>c\<close> entries inserted last, the most recent at the front. The entry
  inserted first is gone.
\<close>

theorem one_more_than_capacity_keeps_the_last:
  assumes "c \<noteq> 0" and "c \<noteq> - 1"
    and "distinct (map fst kvs)" and "length kvs = unat c + 1"
  shows "\<exists>s :: ('k::default, 'v::default) ThreadSafeLRU.
           start (Some c) (map (\<lambda>(k, v). Put k v) kvs) = Some s \<and>
           entries s = Some (rev (tl kvs)) \<and>
           dom (map_c s) = fst ` set (tl kvs) \<and>
           card (dom (map_c s)) = unat c \<and>
           fst (hd kvs) \<notin> dom (map_c s)"
proof -
  from assms(4) have ne: "kvs \<noteq> []" by auto
  define bs where "bs = butlast kvs"
  obtain k v where l: "last kvs = (k, v)" by (cases "last kvs")
  have kvs: "kvs = bs @ [(k, v)]" using ne l by (simp add: bs_def flip: l)
  from assms(1) have "unat c \<noteq> 0" by (simp add: unat_eq_0)
  with assms(4) have lb: "length bs = unat c" and bne: "bs \<noteq> []"
    unfolding kvs by auto
  from assms(3) have db: "distinct (map fst bs)" and kn: "k \<notin> fst ` set bs"
    unfolding kvs by auto
  from start_fill [OF assms(1) db] lb obtain s1 :: "('k, 'v) ThreadSafeLRU" and xs1 where
    s1: "start (Some c) (map (\<lambda>(k, v). Put k v) bs) = Some s1" and inv1: "cache_inv s1 xs1"
    and e1: "entries s1 = Some (rev bs)" and d1: "dom (map_c s1) = fst ` set bs"
    and c1: "capacity s1 = c"
    by auto
  from inv_entries [OF inv1] e1 have m1: "map (kv (heap s1)) xs1 = rev bs" by simp
  then have "length xs1 = length bs" by (metis length_map length_rev)
  then have len: "length xs1 = unat (capacity s1)" using lb c1 by simp
  from inv1 have "counted (size_c s1) (capacity s1) (length xs1)" by (simp add: cache_inv_def)
  then have full: "size_c s1 + 1 > capacity s1"
    using assms(2) c1 len by (intro is_full) simp_all
  from kn d1 have m: "map_c s1 k = None" by auto
  from put_new_view [OF inv1 m, of v] full obtain s where
    p: "put k v s1 = Some s" and inv: "cache_inv s (brk s1 # butlast xs1)"
    and e: "entries s = Some ((k, v) # butlast (map (kv (heap s1)) xs1))"
    by auto
  have "butlast (rev bs) = rev (tl bs)" by (simp add: butlast_rev)
  moreover have "tl kvs = tl bs @ [(k, v)]" unfolding kvs using bne by simp
  ultimately have e': "entries s = Some (rev (tl kvs))" using e m1 by simp
  have st: "start (Some c) (map (\<lambda>(k, v). Put k v) kvs) = Some s"
    unfolding kvs using s1 p by (simp add: start_append)
  from inv_entries [OF inv] e' have m2: "map (kv (heap s)) (brk s1 # butlast xs1) = rev (tl kvs)"
    by simp
  have dom: "dom (map_c s) = fst ` set (tl kvs)"
    using inv_dom [OF inv] unfolding m2 by simp
  have "card (dom (map_c s)) = length (rev (tl kvs))"
    using inv_card [OF inv] unfolding m2 [symmetric] by simp
  then have card: "card (dom (map_c s)) = unat c" using assms(4) by simp
  have "fst (hd kvs) \<notin> fst ` set (tl kvs)"
    using assms(3) ne by (cases kvs) auto
  then show ?thesis using st e' dom card by (intro exI [of _ s]) simp
qed

theorem one_more_than_capacity_keeps_the_last_witness:
  "\<exists>s. start (Some 2) [Put ''a'' (1::int), Put ''b'' 2, Put ''c'' 3] = Some s \<and>
      entries s = Some [(''c'', 3), (''b'', 2)] \<and> dom (map_c s) = {''b'', ''c''} \<and>
      card (dom (map_c s)) = 2 \<and> ''a'' \<notin> dom (map_c s)"
proof -
  have h: "(2::u32) \<noteq> 0" "(2::u32) \<noteq> - 1"
    "distinct (map fst [(''a'', 1::int), (''b'', 2), (''c'', 3)])"
    "length [(''a'', 1::int), (''b'', 2), (''c'', 3)] = unat (2::u32) + 1"
    by simp_all
  from one_more_than_capacity_keeps_the_last [OF h]
  show ?thesis by simp
qed

text \<open>
  C8, as stated, fails already for capacity 1: after \<open>put(a,1), put(b,2)\<close> the keys
  present are not the \<open>1 + 1\<close> most recently used ones, \<open>b\<close> and \<open>a\<close>, but \<open>b\<close>
  alone.
\<close>

theorem capacity_plus_one_keys_do_not_all_remain:
  "map_option (set \<circ> map fst) (Option.bind (start (Some 1) [Put ''a'' (1::int), Put ''b'' 2]) entries)
     \<noteq> Some (set (take (1 + 1) (rev [''a'', ''b''])))"
proof -
  have "Option.bind (start (Some 1) [Put ''a'' (1::int), Put ''b'' 2]) entries = Some [(''b'', 2)]"
    by code_simp
  then show ?thesis by simp
qed

subsection \<open>The invariant of the cache\<close>

text \<open>
  What holds in every reachable state: the walk from \<open>head\<close> to \<open>tail\<close> ends, no key
  occurs twice on it, the keys of the index are the keys on the list, their number is
  the length of the list, and \<open>size\<close> is that length modulo \<open>2 ^ 32\<close>. When the
  capacity is below \<open>2 ^ 32 - 1\<close>, \<open>size\<close> is that length and is at most
  \<open>capacity\<close>.
\<close>

lemma reachable_consistent:
  assumes "start arg cs = Some s"
  shows "\<exists>es. entries s = Some es \<and> distinct (map fst es) \<and>
           dom (map_c s) = fst ` set es \<and> card (dom (map_c s)) = length es \<and>
           size_c s = of_nat (length es) \<and>
           (capacity s \<noteq> - 1 \<longrightarrow> unat (size_c s) = length es \<and> size_c s \<le> capacity s)"
proof -
  from start_inv [OF assms] obtain xs where inv: "cache_inv s xs" by blast
  let ?es = "map (kv (heap s)) xs"
  from inv have "size_c s = of_nat (length ?es)" by (simp add: cache_inv_def counted_def)
  moreover have "capacity s \<noteq> - 1 \<longrightarrow> unat (size_c s) = length ?es \<and> size_c s \<le> capacity s"
    using inv_size [OF inv] by simp
  moreover have "card (dom (map_c s)) = length ?es" using inv_card [OF inv] by simp
  ultimately show ?thesis
    using inv_entries [OF inv] inv_distinct_keys [OF inv] inv_dom [OF inv]
    by (intro exI [of _ ?es]) simp
qed

lemma calls_never_fault:
  assumes "new_ThreadSafeLRU arg = Inr (s0 :: ('k::default, 'v::default) ThreadSafeLRU)"
  shows "\<exists>s. start arg (cs :: ('k, 'v) call list) = Some s"
  using run_capacity [OF assms, of cs] assms by (auto simp: start_def)

lemma fill_max_capacity:
  "\<exists>(s :: (int, int) ThreadSafeLRU) es.
     start (Some (- 1)) (map (\<lambda>i. Put (int i) 0) [0..<n]) = Some s \<and>
     entries s = Some es \<and> length es = n \<and> card (dom (map_c s)) = n \<and>
     size_c s = of_nat n \<and> capacity s = - 1"
proof -
  define kvs :: "(int \<times> int) list" where "kvs = map (\<lambda>i. (int i, 0)) [0..<n]"
  have cs: "map (\<lambda>(k, v). Put k v) kvs = map (\<lambda>i. Put (int i) 0) [0..<n]"
    by (simp add: kvs_def)
  have "map fst kvs = map int [0..<n]" by (simp add: kvs_def comp_def)
  then have d: "distinct (map fst kvs)" by (simp add: distinct_map)
  have ln: "length kvs = n" by (simp add: kvs_def)
  have "(- 1 :: u32) \<noteq> 0" by simp
  from start_fill [OF this d] obtain s :: "(int, int) ThreadSafeLRU" and xs where
    st: "start (Some (- 1)) (map (\<lambda>(k, v). Put k v) kvs) = Some s" and inv: "cache_inv s xs"
    and e: "entries s = Some (rev kvs)" and c: "capacity s = - 1"
    by auto
  from inv_entries [OF inv] e have "map (kv (heap s)) xs = rev kvs" by simp
  then have "length xs = length kvs" by (metis length_map length_rev)
  then have lx: "length xs = n" using ln by simp
  from inv have "size_c s = of_nat (length xs)" by (simp add: cache_inv_def counted_def)
  then have sz: "size_c s = of_nat n" using lx by simp
  have cd: "card (dom (map_c s)) = n" using inv_card [OF inv] lx by simp
  show ?thesis
    using st e c sz cd ln unfolding cs by (intro exI [of _ s] exI [of _ "rev kvs"]) simp
qed

text \<open>
  C1 fails in the code when the capacity is \<open>2 ^ 32 - 1\<close>, the largest \<open>unsigned\<close>.
  No \<open>size\<close> exceeds that capacity, so \<open>put\<close> never evicts; the \<open>2 ^ 32\<close>-th new
  key makes \<open>size++\<close> wrap around to 0. The list and the index then hold \<open>2 ^ 32\<close>
  entries, more than the capacity, and \<open>size\<close> is 0.
\<close>

theorem size_wraps_at_largest_capacity:
  "\<exists>(s :: (int, int) ThreadSafeLRU) es.
     start (Some 4294967295) (map (\<lambda>i. Put (int i) 0) [0..<4294967296]) = Some s \<and>
     entries s = Some es \<and> length es = 4294967296 \<and> card (dom (map_c s)) = 4294967296 \<and>
     size_c s = 0 \<and> capacity s = 4294967295"
proof -
  have a: "(4294967295 :: u32) = - 1" by simp
  have b: "(of_nat 4294967296 :: u32) = 0" by simp
  show ?thesis
    using fill_max_capacity [of 4294967296] unfolding a b .
qed

subsection \<open>The counters at their largest value\<close>

lemma first_put:
  assumes c: "c \<noteq> 0"
  shows "\<exists>s :: ('k::default, 'v::default) ThreadSafeLRU.
           start (Some c) [Put k v] = Some s \<and> entries s = Some [(k, v)] \<and> hits s = 0"
proof -
  from c obtain s0 :: "('k, 'v) ThreadSafeLRU" where s0: "new_ThreadSafeLRU (Some c) = Inr s0"
    and h0: "hits s0 = 0"
    by (simp add: new_ThreadSafeLRU_def)
  from init_fields [OF s0] have m: "map_c s0 k = None" by simp
  have inv0: "cache_inv s0 []" by (rule init_inv [OF s0])
  from put_new_view [OF inv0 m, of v] obtain s where
    p: "put k v s0 = Some s" and h: "hits s = hits s0"
    and d: "if size_c s0 + 1 > capacity s0
            then ([]::addr list) \<noteq> [] \<and> cache_inv s (brk s0 # butlast []) \<and>
                 entries s = Some ((k, v) # butlast (map (kv (heap s0)) [])) \<and>
                 dom (map_c s) = insert k (dom (map_c s0) - {fst (last (map (kv (heap s0)) []))}) \<and>
                 size_c s = size_c s0
            else cache_inv s (brk s0 # []) \<and>
                 entries s = Some ((k, v) # map (kv (heap s0)) []) \<and>
                 dom (map_c s) = insert k (dom (map_c s0)) \<and>
                 size_c s = size_c s0 + 1"
    by (elim exE conjE)
  from d have e: "entries s = Some [(k, v)]"
    by (cases "size_c s0 + 1 > capacity s0") simp_all
  have "start (Some c) [Put k v] = Some s" using s0 p by (simp add: start_def)
  with e h h0 show ?thesis by (intro exI [of _ s]) simp
qed

lemma hits_after_gets:
  assumes c: "c \<noteq> 0"
  shows "\<exists>s :: ('k::default, 'v::default) ThreadSafeLRU.
           start (Some c) (Put k v # replicate n (Get k)) = Some s \<and>
           entries s = Some [(k, v)] \<and> hits s = of_nat n"
proof (induction n)
  case 0
  from first_put [OF c, of k v] show ?case by simp
next
  case (Suc n)
  then obtain s :: "('k, 'v) ThreadSafeLRU" where
    st: "start (Some c) (Put k v # replicate n (Get k)) = Some s"
    and e: "entries s = Some [(k, v)]" and h: "hits s = of_nat n"
    by (elim exE conjE)
  from get_hits_or_misses [OF st, of k] e
  have "\<exists>w s'. (k, w) \<in> set [(k, v)] \<and> get k s = Some (Inr w, s') \<and>
          entries s' = Some ((k, w) # filter (\<lambda>e. fst e \<noteq> k) [(k, v)]) \<and>
          hits s' = hits s + 1"
    by simp blast
  then obtain s' where g: "get k s = Some (Inr v, s')" and e': "entries s' = Some [(k, v)]"
    and h': "hits s' = hits s + 1"
    by auto
  have l: "Put k v # replicate (Suc n) (Get k) = (Put k v # replicate n (Get k)) @ [Get k]"
    by (simp add: replicate_append_same)
  have "start (Some c) (Put k v # replicate (Suc n) (Get k)) = Some s'"
    unfolding l start_append using st g by simp
  moreover have "hits s' = of_nat (Suc n)" using h h' by simp
  ultimately show ?case using e' by (intro exI [of _ s']) simp
qed

lemma next_hit_after_gets:
  assumes c: "c \<noteq> 0"
  shows "\<exists>(s :: ('k::default, 'v::default) ThreadSafeLRU) s'.
           start (Some c) (Put k v # replicate n (Get k)) = Some s \<and>
           entries s = Some [(k, v)] \<and> hits s = of_nat n \<and>
           get k s = Some (Inr v, s') \<and> hits s' = of_nat n + 1 \<and> misses s' = misses s"
proof -
  from hits_after_gets [OF c, of k v n] obtain s :: "('k, 'v) ThreadSafeLRU" where
    st: "start (Some c) (Put k v # replicate n (Get k)) = Some s"
    and e: "entries s = Some [(k, v)]" and h: "hits s = of_nat n"
    by (elim exE conjE)
  from get_hits_or_misses [OF st, of k] e
  have "\<exists>w s'. (k, w) \<in> set [(k, v)] \<and> get k s = Some (Inr w, s') \<and>
          hits s' = hits s + 1 \<and> misses s' = misses s"
    by simp blast
  then obtain s' where "get k s = Some (Inr v, s')" "hits s' = hits s + 1" "misses s' = misses s"
    by auto
  with st e h show ?thesis by (intro exI [of _ s] exI [of _ s']) simp
qed

text \<open>
  C3 fails in the code once \<open>hits\<close> has reached \<open>2 ^ 32 - 1\<close>, the largest
  \<open>unsigned\<close>: with capacity 3, after \<open>put(a,1)\<close> and \<open>2 ^ 32 - 1\<close> calls of
  \<open>get(a)\<close>, each of them a hit, the counter holds \<open>2 ^ 32 - 1\<close>. One more
  \<open>get(a)\<close> is a hit again and returns 1, and \<open>hits++\<close> leaves the counter at 0: it
  has not been incremented by 1.
\<close>

theorem hits_wraps_at_largest_count:
  "\<exists>(s :: (string, int) ThreadSafeLRU) s'.
     start (Some 3) (Put ''a'' 1 # replicate 4294967295 (Get ''a'')) = Some s \<and>
     entries s = Some [(''a'', 1)] \<and> unat (hits s) = 4294967295 \<and>
     get ''a'' s = Some (Inr 1, s') \<and> unat (hits s') = 0 \<and> misses s' = misses s"
proof -
  have "(3::u32) \<noteq> 0" by simp
  from next_hit_after_gets [OF this, of "''a''" 1 4294967295]
  obtain s :: "(string, int) ThreadSafeLRU" and s' where
    st: "start (Some 3) (Put ''a'' 1 # replicate 4294967295 (Get ''a'')) = Some s"
    and e: "entries s = Some [(''a'', 1)]" and h: "hits s = of_nat 4294967295"
    and g: "get ''a'' s = Some (Inr 1, s')" and h': "hits s' = of_nat 4294967295 + 1"
    and m: "misses s' = misses s"
    by (elim exE conjE)
  have a: "unat (hits s) = 4294967295" unfolding h by simp
  have b: "unat (hits s') = 0" unfolding h' by simp
  from st e a g b m show ?thesis by (intro exI [of _ s] exI [of _ s'] conjI)
qed

lemma remove_after_fill_max_capacity:
  assumes n: "0 < n"
  shows "\<exists>(s :: (int, int) ThreadSafeLRU) s'.
     start (Some (- 1)) (map (\<lambda>i. Put (int i) 0) [0..<n]) = Some s \<and>
     size_c s = of_nat n \<and> remove 0 s = Some (True, s') \<and> size_c s' = of_nat n - 1"
proof -
  define kvs :: "(int \<times> int) list" where "kvs = map (\<lambda>i. (int i, 0)) [0..<n]"
  have cs: "map (\<lambda>(k, v). Put k v) kvs = map (\<lambda>i. Put (int i) 0) [0..<n]"
    by (simp add: kvs_def)
  have "map fst kvs = map int [0..<n]" by (simp add: kvs_def comp_def)
  then have d: "distinct (map fst kvs)" by (simp add: distinct_map)
  have ln: "length kvs = n" by (simp add: kvs_def)
  have "(0, 0) \<in> set kvs" using n by (auto simp: kvs_def image_iff)
  then have k0: "0 \<in> fst ` set kvs" by force
  have "(- 1 :: u32) \<noteq> 0" by simp
  from start_fill [OF this d] obtain s :: "(int, int) ThreadSafeLRU" and xs where
    st: "start (Some (- 1)) (map (\<lambda>(k, v). Put k v) kvs) = Some s" and inv: "cache_inv s xs"
    and e: "entries s = Some (rev kvs)" and dm: "dom (map_c s) = fst ` set kvs"
    by auto
  from inv_entries [OF inv] e have "map (kv (heap s)) xs = rev kvs" by simp
  then have "length xs = length kvs" by (metis length_map length_rev)
  then have lx: "length xs = n" using ln by simp
  from inv have "size_c s = of_nat (length xs)" by (simp add: cache_inv_def counted_def)
  then have sz: "size_c s = of_nat n" using lx by simp
  from k0 dm obtain a where m: "map_c s 0 = Some a" by blast
  from inv_mem [OF inv m] obtain us vs where xs: "xs = us @ a # vs" by blast
  from remove_hit [OF inv [unfolded xs] m] obtain s' where
    "remove 0 s = Some (True, s')" "size_c s' = size_c s - 1"
    by blast
  with st sz show ?thesis unfolding cs by (intro exI [of _ s] exI [of _ s']) simp
qed

text \<open>
  C5 fails in the code in the state that the defect of C1 leads to: with capacity
  \<open>2 ^ 32 - 1\<close>, after \<open>2 ^ 32\<close> calls of \<open>put\<close> with different keys, \<open>size\<close> is 0
  although the keys are present. There \<open>remove(0)\<close> finds its key and returns true,
  and \<open>size--\<close> leaves \<open>size\<close> at \<open>2 ^ 32 - 1\<close>: it has not decreased by 1.
\<close>

theorem remove_wraps_size_at_largest_capacity:
  "\<exists>(s :: (int, int) ThreadSafeLRU) s'.
     start (Some 4294967295) (map (\<lambda>i. Put (int i) 0) [0..<4294967296]) = Some s \<and>
     unat (size_c s) = 0 \<and> remove 0 s = Some (True, s') \<and> unat (size_c s') = 4294967295"
proof -
  have c: "(4294967295 :: u32) = - 1" by simp
  have "(0::nat) < 4294967296" by simp
  from remove_after_fill_max_capacity [OF this]
  obtain s :: "(int, int) ThreadSafeLRU" and s' where
    st: "start (Some (- 1)) (map (\<lambda>i. Put (int i) 0) [0..<4294967296]) = Some s"
    and sz: "size_c s = of_nat 4294967296"
    and r: "remove 0 s = Some (True, s')" and sz': "size_c s' = of_nat 4294967296 - 1"
    by (elim exE conjE)
  have a: "unat (size_c s) = 0" unfolding sz by simp
  have b: "unat (size_c s') = 4294967295" unfolding sz' by simp
  from st a r b show ?thesis unfolding c by (intro exI [of _ s] exI [of _ s'] conjI)
qed

end
